theory Spec2Isabelle
  imports Main "HOL-Library.Word"
begin

unbundle bit_operations_syntax

section \<open>Bytes, slices and big-endian integers\<close>

text \<open>
  Go's \<^verbatim>\<open>[]byte\<close> is a list of 8-bit words, \<^verbatim>\<open>uint16\<close> and \<^verbatim>\<open>uint32\<close> are
  16-bit and 32-bit words (arithmetic wraps), and \<^verbatim>\<open>int\<close> (lengths, offsets, the loop
  index of the encoder) is a natural number: every such value of the program is
  non-negative and far below \<open>2 ^ 63\<close>. A Go \<^verbatim>\<open>string\<close> is a byte string, here a
  \<open>string\<close> of 8-bit characters.
\<close>

type_synonym byte = "8 word"

text \<open>\<^verbatim>\<open>xs[lo:hi]\<close>. Go panics when \<open>hi\<close> exceeds the capacity or \<open>lo > hi\<close>; every use
  below is under a length check of the source, except the chunk of \<^verbatim>\<open>handleRead\<close>,
  whose panic is a branch of the model.\<close>

definition subslice :: "'a list \<Rightarrow> nat \<Rightarrow> nat \<Rightarrow> 'a list" where
  "subslice xs lo hi = take (hi - lo) (drop lo xs)"

text \<open>The builtin \<^verbatim>\<open>copy(dst, src)\<close>: the first \<open>min (len dst) (len src)\<close> elements of
  \<open>dst\<close> are overwritten; the value is the new content of \<open>dst\<close>.\<close>

definition copyBytes :: "'a list \<Rightarrow> 'a list \<Rightarrow> 'a list" where
  "copyBytes dst src = take (length dst) src @ drop (length src) dst"

text \<open>\<^verbatim>\<open>copy(buf[lo:hi], src)\<close> as an update of \<open>buf\<close>.\<close>

definition copyAt :: "'a list \<Rightarrow> nat \<Rightarrow> nat \<Rightarrow> 'a list \<Rightarrow> 'a list" where
  "copyAt buf lo hi src = take lo buf @ copyBytes (subslice buf lo hi) src @ drop hi buf"

text \<open>\<^verbatim>\<open>binary.BigEndian\<close>. The readers index their argument, so they panic on a slice
  that is too short; each call site of the source passes a slice of the right length
  or is modelled with its panic.\<close>

definition Uint16 :: "byte list \<Rightarrow> 16 word" where
  "Uint16 b = ucast (b ! 1) OR push_bit 8 (ucast (b ! 0))"

definition PutUint16 :: "16 word \<Rightarrow> byte list" where
  "PutUint16 v = [ucast (drop_bit 8 v), ucast v]"

definition Uint32 :: "byte list \<Rightarrow> 32 word" where
  "Uint32 b = ucast (b ! 3) OR push_bit 8 (ucast (b ! 2)) OR push_bit 16 (ucast (b ! 1))
     OR push_bit 24 (ucast (b ! 0))"

definition PutUint32 :: "32 word \<Rightarrow> byte list" where
  "PutUint32 v = [ucast (drop_bit 24 v), ucast (drop_bit 16 v), ucast (drop_bit 8 v), ucast v]"

definition bytesOf :: "string \<Rightarrow> byte list" where
  "bytesOf s = map (\<lambda>c. of_nat (of_char c)) s"

definition stringOf :: "byte list \<Rightarrow> string" where
  "stringOf bs = map (\<lambda>b. char_of (unat b)) bs"

section \<open>Path handling of the standard library\<close>

text \<open>
  \<^verbatim>\<open>strings.TrimPrefix\<close>, \<^verbatim>\<open>strings.Contains\<close>, \<^verbatim>\<open>filepath.Clean\<close> and
  \<^verbatim>\<open>filepath.Join\<close> with the separator \<open>/\<close>. \<open>Clean\<close> follows the documented
  rules of the library: separators are merged, \<open>.\<close> elements are dropped, an inner
  \<open>..\<close> removes the element before it, a \<open>..\<close> at the root is dropped, a leading
  \<open>..\<close> of a relative path is kept, and the empty result is \<open>.\<close>.
\<close>

definition TrimPrefix :: "string \<Rightarrow> string \<Rightarrow> string" where
  "TrimPrefix s pre = (if take (length pre) s = pre then drop (length pre) s else s)"

fun Contains :: "string \<Rightarrow> string \<Rightarrow> bool" where
  "Contains [] sub = (sub = [])"
| "Contains (c # cs) sub = (take (length sub) (c # cs) = sub \<or> Contains cs sub)"

text \<open>The path elements between separators (\<open>a//b\<close> has an empty one).\<close>

fun elements :: "string \<Rightarrow> string list" where
  "elements [] = [[]]"
| "elements (c # cs) =
     (if c = CHR ''/'' then [] # elements cs
      else (case elements cs of [] \<Rightarrow> [[c]] | e # es \<Rightarrow> (c # e) # es))"

text \<open>One element of the input against the output written so far (last element
  first).\<close>

definition cleanStep :: "bool \<Rightarrow> string list \<Rightarrow> string \<Rightarrow> string list" where
  "cleanStep rooted out e =
     (if e = [] \<or> e = ''.'' then out
      else if e = ''..'' then
        (if out \<noteq> [] \<and> hd out \<noteq> ''..'' then tl out
         else if \<not> rooted then ''..'' # out
         else out)
      else e # out)"

fun joinSep :: "string list \<Rightarrow> string" where
  "joinSep [] = []"
| "joinSep [e] = e"
| "joinSep (e # es) = e @ ''/'' @ joinSep es"

definition Clean :: "string \<Rightarrow> string" where
  "Clean path =
     (if path = [] then ''.''
      else
        (let rooted = (hd path = CHR ''/'');
             out = joinSep (rev (foldl (cleanStep rooted) [] (elements path)));
             res = (if rooted then ''/'' @ out else out)
         in if res = [] then ''.'' else res))"

definition Join :: "string \<Rightarrow> string \<Rightarrow> string" where
  "Join a b =
     (if a \<noteq> [] then Clean (a @ ''/'' @ b)
      else if b \<noteq> [] then Clean b
      else [])"

text \<open>A path has a parent-directory segment when one of its elements is \<open>..\<close>.\<close>

definition hasParentSegment :: "string \<Rightarrow> bool" where
  "hasParentSegment p = (''..'' \<in> set (elements p))"

section \<open>The TFTP transfer engine\<close>

definition opRRQ :: "16 word" where "opRRQ = 1"
definition opDATA :: "16 word" where "opDATA = 3"
definition opACK :: "16 word" where "opACK = 4"
definition opERR :: "16 word" where "opERR = 5"
definition blockSize :: nat where "blockSize = 512"

text \<open>
  What one \<^verbatim>\<open>conn.Read(ackBuf)\<close> under its 3-second deadline returns: an error (the
  deadline passed, or any other read error), or a datagram. The reads of a transfer
  are answered in order by a list of responses; when the list is used up every
  further read fails (nothing more arrives).
\<close>

datatype response = ReadError | Datagram "byte list"

definition nextResponse :: "response list \<Rightarrow> response \<times> response list" where
  "nextResponse env = (case env of [] \<Rightarrow> (ReadError, []) | r # rest \<Rightarrow> (r, rest))"

text \<open>The test of lines 126-135 on one response: no error, 4 bytes read into the
  4-byte \<^verbatim>\<open>ackBuf\<close>, opcode ACK, and the block number of the current block.\<close>

definition ackFor :: "16 word \<Rightarrow> response \<Rightarrow> bool" where
  "ackFor block r =
     (case r of
        ReadError \<Rightarrow> False
      | Datagram d \<Rightarrow>
          (let ackBuf = copyBytes (replicate 4 0) d;
               n = min 4 (length d)
           in n \<ge> 4 \<and> Uint16 (subslice ackBuf 0 2) = opACK \<and> Uint16 (subslice ackBuf 2 4) = block))"

definition dataPacket :: "16 word \<Rightarrow> byte list \<Rightarrow> byte list" where
  "dataPacket block chunk =
     copyAt (copyAt (copyAt (replicate (4 + length chunk) 0) 0 2 (PutUint16 opDATA))
       2 4 (PutUint16 block)) 4 (4 + length chunk) chunk"

definition errorPacket :: "string \<Rightarrow> byte list" where
  "errorPacket filename =
     (let errMsg = bytesOf (''File not found: '' @ filename);
          n = 5 + length errMsg
      in copyAt (copyAt (copyAt (replicate n 0) 0 2 (PutUint16 opERR)) 2 4 (PutUint16 1))
           4 n errMsg)"

text \<open>The retry loop of lines 122-136: the packets written and the responses left.
  It stops at the first matching ACK or after the fifth write, and does not tell its
  caller which.\<close>

function retryLoop ::
  "nat \<Rightarrow> byte list \<Rightarrow> 16 word \<Rightarrow> response list \<Rightarrow> byte list list \<times> response list" where
  "retryLoop retries pkt block env =
     (if retries < 5 then
        (let (r, rest) = nextResponse env in
         if ackFor block r then ([pkt], rest)
         else (let (sent, env') = retryLoop (retries + 1) pkt block rest
               in (pkt # sent, env')))
      else ([], env))"
  by pat_completeness auto
termination
  by (relation "measure (\<lambda>(retries, pkt, block, env). 5 - retries)") auto

datatype outcome =
  Ignored | Rejected | NotFound | DialFailed | Complete | SlicePanic | StillSending

text \<open>
  The block loop of lines 107-145. The source loop has no bound of its own, so the
  model counts its iterations: \<open>transferLoop n\<close> runs at most \<open>n\<close> iterations and
  answers \<open>StillSending\<close> when the loop has not returned by then. The value is the
  list of packets written to the connection, in order, and how the loop ended.
\<close>

fun transferLoop ::
  "nat \<Rightarrow> byte list \<Rightarrow> 16 word \<Rightarrow> nat \<Rightarrow> response list \<Rightarrow> byte list list \<times> outcome" where
  "transferLoop 0 data block offset env = ([], StillSending)"
| "transferLoop (Suc n) data block offset env =
     (let end = (if offset + blockSize > length data then length data else offset + blockSize)
      in if offset > end then ([], SlicePanic)
         else
           (let chunk = subslice data offset end;
                pkt = dataPacket block chunk;
                (sent, env') = retryLoop 0 pkt block env
            in if length chunk < blockSize then (sent, Complete)
               else
                 (let block' = block + 1;
                      offset' = unat (block' - 1) * blockSize;
                      (later, out) = transferLoop n data block' offset' env'
                  in (sent @ later, out))))"

text \<open>What \<^verbatim>\<open>handleRead\<close> does to the outside: file reads and packets written to the
  requester (log lines are not modelled).\<close>

datatype event = FileRead string | Sent "byte list"

record tftpEnv =
  readFile :: "string \<Rightarrow> byte list option"
  dialOk :: bool
  responses :: "response list"

definition handleRead ::
  "string \<Rightarrow> string \<Rightarrow> tftpEnv \<Rightarrow> nat \<Rightarrow> event list \<times> outcome" where
  "handleRead root filename env fuel =
     (let clean = TrimPrefix (Clean filename) ''/''
      in if Contains clean ''..'' then ([], Rejected)
         else
           (let fullPath = Join root clean
            in case readFile env fullPath of
                 None \<Rightarrow>
                   (if \<not> dialOk env then ([FileRead fullPath], DialFailed)
                    else ([FileRead fullPath, Sent (errorPacket filename)], NotFound))
               | Some data \<Rightarrow>
                   (if \<not> dialOk env then ([FileRead fullPath], DialFailed)
                    else
                      (let (sent, out) = transferLoop fuel data 1 0 (responses env)
                       in (FileRead fullPath # map Sent sent, out)))))"

text \<open>The body of the receive loop of \<^verbatim>\<open>ListenAndServe\<close> for one datagram (at most
  1500 bytes are read): only a read request of at least 4 bytes starts a handler.\<close>

definition serveDatagram ::
  "string \<Rightarrow> byte list \<Rightarrow> tftpEnv \<Rightarrow> nat \<Rightarrow> event list \<times> outcome" where
  "serveDatagram root dgram env fuel =
     (let buf = take 1500 dgram; n = length buf
      in if n < 4 then ([], Ignored)
         else if Uint16 (subslice buf 0 2) = opRRQ then
           (let rest = subslice buf 2 n;
                filename = stringOf (takeWhile (\<lambda>b. b \<noteq> 0) rest)
            in handleRead root filename env fuel)
         else ([], Ignored))"

text \<open>The \<open>k\<close>-th block of a file as the spec describes it: number \<open>k + 1\<close>, carrying
  the (at most) 512 bytes from offset \<open>512 * k\<close>.\<close>

definition blockOf :: "byte list \<Rightarrow> nat \<Rightarrow> byte list" where
  "blockOf data k = dataPacket (of_nat (k + 1)) (take 512 (drop (k * 512) data))"

section \<open>The DHCP packet codec\<close>

definition NAK :: byte where "NAK = 6"

definition OptRequestedIP :: byte where "OptRequestedIP = 50"
definition OptClientArch :: byte where "OptClientArch = 93"
definition OptEnd :: byte where "OptEnd = 255"

text \<open>
  The struct \<^verbatim>\<open>Packet\<close>. A \<^verbatim>\<open>net.IP\<close> and a \<^verbatim>\<open>net.HardwareAddr\<close> are byte slices; the
  nil slice is the empty list (the code treats a nil and an empty address alike: both
  copy nothing). \<^verbatim>\<open>SName\<close> and \<^verbatim>\<open>File\<close> are arrays of 64 and 128 bytes. The option map
  has unique keys and no order.
\<close>

record Packet =
  Op :: byte
  HType :: byte
  HLen :: byte
  Hops :: byte
  XID :: "32 word"
  Secs :: "16 word"
  Flags :: "16 word"
  CIAddr :: "byte list"
  YIAddr :: "byte list"
  SIAddr :: "byte list"
  GIAddr :: "byte list"
  CHAddr :: "byte list"
  SName :: "byte list"
  File :: "byte list"
  Options :: "byte \<rightharpoonup> byte list"

datatype error = PacketTooShort nat | IndexPanic

text \<open>\<^verbatim>\<open>net.IP.To4\<close>: a 4-byte address is itself, a 16-byte IPv4-mapped address is its
  last four bytes, anything else is nil.\<close>

definition To4 :: "byte list \<Rightarrow> byte list" where
  "To4 ip =
     (if length ip = 4 then ip
      else if length ip = 16 \<and> take 10 ip = replicate 10 0 \<and> ip ! 10 = 255 \<and> ip ! 11 = 255
        then subslice ip 12 16
      else [])"

text \<open>The option loop of \<^verbatim>\<open>parsePacket\<close> (lines 499-519), from index \<open>i\<close>.\<close>

function parseOptions ::
  "byte list \<Rightarrow> nat \<Rightarrow> (byte \<rightharpoonup> byte list) \<Rightarrow> (byte \<rightharpoonup> byte list)" where
  "parseOptions data i opts =
     (if i < length data then
        (let opt = data ! i
         in if opt = OptEnd then opts
            else if opt = 0 then parseOptions data (i + 1) opts
            else if i + 1 \<ge> length data then opts
            else
              (let len = unat (data ! (i + 1))
               in if i + 2 + len > length data then opts
                  else
                    (let optData = copyBytes (replicate len 0) (subslice data (i + 2) (i + 2 + len))
                     in parseOptions data (i + 2 + len) (opts(opt \<mapsto> optData)))))
      else opts)"
  by pat_completeness auto
termination
  by (relation "measure (\<lambda>(data, i, opts). length data - i)") auto

definition parsePacket :: "byte list \<Rightarrow> error + Packet" where
  "parsePacket data =
     (if length data < 240 then Inl (PacketTooShort (length data))
      else
        (let p = \<lparr>Op = data ! 0, HType = data ! 1, HLen = data ! 2, Hops = data ! 3,
                  XID = Uint32 (subslice data 4 8),
                  Secs = Uint16 (subslice data 8 10),
                  Flags = Uint16 (subslice data 10 12),
                  CIAddr = copyBytes (replicate 4 0) (subslice data 12 16),
                  YIAddr = copyBytes (replicate 4 0) (subslice data 16 20),
                  SIAddr = copyBytes (replicate 4 0) (subslice data 20 24),
                  GIAddr = copyBytes (replicate 4 0) (subslice data 24 28),
                  CHAddr = copyBytes (replicate 6 0) (subslice data 28 34),
                  SName = copyBytes (replicate 64 0) (subslice data 44 108),
                  File = copyBytes (replicate 128 0) (subslice data 108 236),
                  Options = Map.empty\<rparr>
         in if length data > 240 \<and> data ! 236 = 99 \<and> data ! 237 = 130 \<and> data ! 238 = 83
                \<and> data ! 239 = 99
            then Inr (p\<lparr>Options := parseOptions data 240 Map.empty\<rparr>)
            else Inr p))"

text \<open>
  The option loop of \<^verbatim>\<open>serializePacket\<close> (lines 556-564). Go visits the keys of a map
  in an order of its choosing: the order is the argument \<open>order\<close>, a list of the keys.
  The loop stops at the first option that does not fit. \<^verbatim>\<open>byte(len(data))\<close> keeps the
  low 8 bits of the length.
\<close>

fun writeOptions ::
  "(byte \<rightharpoonup> byte list) \<Rightarrow> byte list \<Rightarrow> byte list \<Rightarrow> nat \<Rightarrow> byte list \<times> nat" where
  "writeOptions opts [] buf i = (buf, i)"
| "writeOptions opts (opt # rest) buf i =
     (case opts opt of
        None \<Rightarrow> writeOptions opts rest buf i
      | Some data \<Rightarrow>
          (if i + 2 + length data \<ge> length buf then (buf, i)
           else
             (let buf1 = buf[i := opt];
                  buf2 = buf1[i + 1 := of_nat (length data)];
                  buf3 = copyAt buf2 (i + 2) (length buf2) data
              in writeOptions opts rest buf3 (i + 2 + length data))))"

definition serializePacket :: "Packet \<Rightarrow> byte list \<Rightarrow> byte list" where
  "serializePacket p order =
     (let buf = replicate 576 0;
          buf = buf[0 := Op p];
          buf = buf[1 := HType p];
          buf = buf[2 := HLen p];
          buf = buf[3 := Hops p];
          buf = copyAt buf 4 8 (PutUint32 (XID p));
          buf = copyAt buf 8 10 (PutUint16 (Secs p));
          buf = copyAt buf 10 12 (PutUint16 (Flags p));
          buf = (if CIAddr p \<noteq> [] then copyAt buf 12 16 (To4 (CIAddr p)) else buf);
          buf = copyAt buf 16 20 (YIAddr p);
          buf = copyAt buf 20 24 (SIAddr p);
          buf = (if GIAddr p \<noteq> [] then copyAt buf 24 28 (To4 (GIAddr p)) else buf);
          buf = copyAt buf 28 34 (CHAddr p);
          buf = copyAt buf 44 108 (SName p);
          buf = copyAt buf 108 236 (File p);
          buf = buf[236 := 99];
          buf = buf[237 := 130];
          buf = buf[238 := 83];
          buf = buf[239 := 99];
          (buf, i) = writeOptions (Options p) order buf 240;
          buf = buf[i := OptEnd]
      in take (i + 1) buf)"

text \<open>The bytes the encoder writes, to compare it with: the fixed header with the
  cookie, and one option as tag, length byte (\<^verbatim>\<open>byte(len(data))\<close>, the low 8 bits of the
  length) and value.\<close>

definition fixedHeader :: "Packet \<Rightarrow> byte list" where
  "fixedHeader p =
     [Op p, HType p, HLen p, Hops p] @ PutUint32 (XID p) @ PutUint16 (Secs p)
       @ PutUint16 (Flags p)
       @ copyBytes (replicate 4 0) (To4 (CIAddr p))
       @ copyBytes (replicate 4 0) (YIAddr p)
       @ copyBytes (replicate 4 0) (SIAddr p)
       @ copyBytes (replicate 4 0) (To4 (GIAddr p))
       @ copyBytes (replicate 6 0) (CHAddr p)
       @ replicate 10 0
       @ copyBytes (replicate 64 0) (SName p)
       @ copyBytes (replicate 128 0) (File p)
       @ [99, 130, 83, 99]"

definition encodeOption :: "byte \<Rightarrow> byte list \<Rightarrow> byte list" where
  "encodeOption opt data = [opt, of_nat (length data)] @ data"

text \<open>The keys of \<open>order\<close> whose options the loop writes, starting at index \<open>i\<close> of a
  buffer of \<open>n\<close> bytes: those before the first one that does not fit.\<close>

fun written :: "(byte \<rightharpoonup> byte list) \<Rightarrow> byte list \<Rightarrow> nat \<Rightarrow> nat \<Rightarrow> byte list" where
  "written opts [] i n = []"
| "written opts (opt # rest) i n =
     (case opts opt of
        None \<Rightarrow> written opts rest i n
      | Some data \<Rightarrow>
          (if i + 2 + length data \<ge> n then []
           else opt # written opts rest (i + 2 + length data) n))"

definition optionsSize :: "(byte \<rightharpoonup> byte list) \<Rightarrow> byte list \<Rightarrow> nat" where
  "optionsSize opts order = sum_list (map (\<lambda>k. 2 + length (the (opts k))) order)"

section \<open>The lease allocator\<close>

record Config =
  Interface :: string
  ServerIP :: "byte list"
  RangeStart :: "byte list"
  RangeEnd :: "byte list"
  SubnetMask :: "byte list"
  BootFile :: string
  TFTPServer :: string

record lease =
  IP :: "byte list"
  MAC :: "byte list"

record Server =
  config :: Config
  leases :: "string \<rightharpoonup> lease"
  nextIP :: "byte list"

definition dupIP :: "byte list \<Rightarrow> byte list" where
  "dupIP ip = copyBytes (replicate (length ip) 0) ip"

definition NewServer :: "Config \<Rightarrow> Server" where
  "NewServer cfg = \<lparr>config = cfg, leases = Map.empty, nextIP = dupIP (RangeStart cfg)\<rparr>"

text \<open>\<^verbatim>\<open>net.HardwareAddr.String\<close>: two lower-case hex digits per byte, colons between.\<close>

definition hexDigit :: string where
  "hexDigit = ''0123456789abcdef''"

definition hexByte :: "byte \<Rightarrow> string" where
  "hexByte b = [hexDigit ! unat (drop_bit 4 b), hexDigit ! unat (b AND 15)]"

fun macString :: "byte list \<Rightarrow> string" where
  "macString [] = []"
| "macString [b] = hexByte b"
| "macString (b # bs) = hexByte b @ '':'' @ macString bs"

text \<open>
  \<^verbatim>\<open>allocateIP\<close> under its lock: one step on the server state. The slice \<^verbatim>\<open>ipv4\<close> shares
  its array with \<^verbatim>\<open>s.nextIP\<close>, which is replaced by it; the address returned and stored
  in the lease is a copy taken before the increment. \<^verbatim>\<open>Uint32\<close> on a nil \<^verbatim>\<open>ipv4\<close> (the
  cursor is not an IPv4 address) panics, after the lease was recorded.
\<close>

definition allocateIP :: "Server \<Rightarrow> byte list \<Rightarrow> error + (byte list \<times> Server)" where
  "allocateIP s mac =
     (let macStr = macString mac
      in case leases s macStr of
           Some l \<Rightarrow> Inr (IP l, s)
         | None \<Rightarrow>
             (let ip = dupIP (nextIP s);
                  s1 = s\<lparr>leases := (leases s)(macStr \<mapsto> \<lparr>IP = ip, MAC = mac\<rparr>)\<rparr>;
                  ipv4 = To4 (nextIP s)
              in if length ipv4 < 4 then Inl IndexPanic
                 else
                   (let val = Uint32 ipv4;
                        val = val + 1;
                        ipv4 = copyBytes ipv4 (PutUint32 val)
                    in Inr (ip, s1\<lparr>nextIP := ipv4\<rparr>))))"

text \<open>A sequence of calls, in order; a panic ends the process.\<close>

fun allocateAll :: "Server \<Rightarrow> byte list list \<Rightarrow> error + (byte list list \<times> Server)" where
  "allocateAll s [] = Inr ([], s)"
| "allocateAll s (mac # macs) =
     (case allocateIP s mac of
        Inl e \<Rightarrow> Inl e
      | Inr (ip, s') \<Rightarrow>
          (case allocateAll s' macs of
             Inl e \<Rightarrow> Inl e
           | Inr (ips, s'') \<Rightarrow> Inr (ip # ips, s'')))"

text \<open>An address as a number, and whether it lies in the configured range.\<close>

definition ipNumber :: "byte list \<Rightarrow> nat" where
  "ipNumber ip = unat (Uint32 (To4 ip))"

definition inRange :: "Config \<Rightarrow> byte list \<Rightarrow> bool" where
  "inRange cfg ip = (ipNumber (RangeStart cfg) \<le> ipNumber ip \<and> ipNumber ip \<le> ipNumber (RangeEnd cfg))"

section \<open>The DHCP responder\<close>









section \<open>Definitions for the statements\<close>

text \<open>The block number and the payload of a DATA packet, as a client reads them.\<close>

definition blockNumber :: "byte list \<Rightarrow> nat" where
  "blockNumber pkt = unat (Uint16 (subslice pkt 2 4))"

definition payload :: "byte list \<Rightarrow> byte list" where
  "payload pkt = drop 4 pkt"

text \<open>The number of DATA blocks the spec states for a file of \<open>S\<close> bytes:
  \<open>ceil (S / 512)\<close>, and one more when \<open>S\<close> is a nonzero multiple of 512.\<close>

definition claimedBlocks :: "nat \<Rightarrow> nat" where
  "claimedBlocks S = (S + 511) div 512 + (if 0 < S \<and> S mod 512 = 0 then 1 else 0)"

text \<open>The \<open>k\<close>-th packet of a transfer that goes around the 16-bit counter: block
  number \<open>(k + 1) mod 65536\<close>, carrying the 512 bytes from offset \<open>512 * (k mod 65536)\<close>.\<close>

definition wrapBlock :: "byte list \<Rightarrow> nat \<Rightarrow> byte list" where
  "wrapBlock data k = dataPacket (of_nat (k + 1)) (take 512 (drop ((k mod 65536) * 512) data))"

text \<open>A buffer whose first bytes \<open>X\<close> are written and whose last \<open>k\<close> bytes are still
  zero, and the bytes of a list of options.\<close>

definition filled :: "byte list \<Rightarrow> nat \<Rightarrow> byte list" where
  "filled X k = X @ replicate k 0"

definition encodeAll :: "(byte \<rightharpoonup> byte list) \<Rightarrow> byte list \<Rightarrow> byte list" where
  "encodeAll opts ks = concat (map (\<lambda>k. encodeOption k (the (opts k))) ks)"

text \<open>What the decoder stores: no pad or end tag as a key, no value longer than its
  length byte can say.\<close>

definition wfOptions :: "(byte \<rightharpoonup> byte list) \<Rightarrow> bool" where
  "wfOptions opts = (\<forall>k v. opts k = Some v \<longrightarrow> k \<noteq> 0 \<and> k \<noteq> OptEnd \<and> length v \<le> 255)"

text \<open>
  The option field of a packet on the wire (section 6 of the spec): pad bytes and
  options, each option a tag that is neither 0 nor 255, a length byte and as many bytes
  of value; and the option map such a field stands for (a later option replaces an
  earlier one with the same tag).
\<close>

datatype item = Pad | Opt byte "byte list"

fun encodeItems :: "item list \<Rightarrow> byte list" where
  "encodeItems [] = []"
| "encodeItems (Pad # its) = 0 # encodeItems its"
| "encodeItems (Opt k v # its) = [k, of_nat (length v)] @ v @ encodeItems its"

fun optionsOf :: "item list \<Rightarrow> (byte \<rightharpoonup> byte list) \<Rightarrow> (byte \<rightharpoonup> byte list)" where
  "optionsOf [] m = m"
| "optionsOf (Pad # its) m = optionsOf its m"
| "optionsOf (Opt k v # its) m = optionsOf its (m(k \<mapsto> v))"

fun wfItems :: "item list \<Rightarrow> bool" where
  "wfItems [] = True"
| "wfItems (Pad # its) = wfItems its"
| "wfItems (Opt k v # its) = (k \<noteq> 0 \<and> k \<noteq> 255 \<and> length v \<le> 255 \<and> wfItems its)"

text \<open>A byte string that is the tag \<open>k\<close>, a length byte that is the length of \<open>v\<close>, and
  \<open>v\<close>.\<close>

definition isTLV :: "byte \<Rightarrow> byte list \<Rightarrow> byte list \<Rightarrow> bool" where
  "isTLV k v bs = (length bs = 2 + length v \<and> bs ! 0 = k \<and> unat (bs ! 1) = length v \<and> drop 2 bs = v)"

text \<open>A DISCOVER as a PXE client sends it (249 bytes), and its decoding.\<close>

definition sampleDiscover :: "byte list" where
  "sampleDiscover = [1, 1, 6, 0, 0x12, 0x34, 0x56, 0x78, 0, 0, 0x80, 0] @ replicate 16 0
        @ [0xaa, 0xbb, 0xcc, 0xdd, 0xee, 0x01] @ replicate 10 0 @ replicate 192 0
        @ [99, 130, 83, 99] @ [53, 1, 1, 0, 93, 2, 0, 7, 255]"

definition samplePacket :: Packet where
  "samplePacket = \<lparr>Op = 1, HType = 1, HLen = 6, Hops = 0, XID = 0x12345678, Secs = 0, Flags = 0x8000,
          CIAddr = [0, 0, 0, 0], YIAddr = [0, 0, 0, 0], SIAddr = [0, 0, 0, 0],
          GIAddr = [0, 0, 0, 0], CHAddr = [0xaa, 0xbb, 0xcc, 0xdd, 0xee, 0x01],
          SName = replicate 64 0, File = replicate 128 0,
          Options = [53 \<mapsto> [1], 93 \<mapsto> [0, 7]]\<rparr>"

text \<open>The first 236 bytes and the option field of that DISCOVER.\<close>

definition sampleItems :: "item list" where
  "sampleItems = [Opt 53 [1], Pad, Opt 93 [0, 7]]"

definition sampleHeader :: "byte list" where
  "sampleHeader = [1, 1, 6, 0, 0x12, 0x34, 0x56, 0x78, 0, 0, 0x80, 0] @ replicate 16 0
        @ [0xaa, 0xbb, 0xcc, 0xdd, 0xee, 0x01] @ replicate 10 0 @ replicate 192 0"

text \<open>The configuration that \<^verbatim>\<open>main\<close> builds from its default flags
  (\<^verbatim>\<open>net.ParseIP\<close> gives the 16-byte form of an IPv4 address).\<close>

definition sampleConfig :: Config where
  "sampleConfig = \<lparr>Interface = ''en7'',
     ServerIP = [0, 0, 0, 0, 0, 0, 0, 0, 0, 0, 255, 255, 10, 0, 0, 1],
     RangeStart = [0, 0, 0, 0, 0, 0, 0, 0, 0, 0, 255, 255, 10, 0, 0, 100],
     RangeEnd = [0, 0, 0, 0, 0, 0, 0, 0, 0, 0, 255, 255, 10, 0, 0, 200],
     SubnetMask = [255, 255, 255, 0], BootFile = ''bootx64.efi'', TFTPServer = ''10.0.0.1''\<rparr>"











section \<open>Basic facts\<close>

declare retryLoop.simps [simp del]
declare parseOptions.simps [simp del]

lemma length_subslice: "length (subslice xs lo hi) = min (hi - lo) (length xs - lo)"
  by (simp add: subslice_def)

subsection \<open>Big-endian integers\<close>

lemma Uint16_PutUint16: "Uint16 (PutUint16 v) = v"
  unfolding PutUint16_def Uint16_def
  apply simp
  apply (rule bit_word_eqI)
  apply (auto simp add: bit_simps)
  done

lemma Uint32_PutUint32: "Uint32 (PutUint32 v) = v"
  unfolding PutUint32_def Uint32_def
  apply simp
  apply (rule bit_word_eqI)
  subgoal for n
    apply (cases "n < 8"; cases "n < 16"; cases "n < 24")
    apply (auto simp add: bit_simps)
    done
  done

lemma PutUint32_Uint32: "PutUint32 (Uint32 [a, b, c, d]) = [a, b, c, d]"
  unfolding PutUint32_def Uint32_def
  apply simp
  apply (intro conjI; rule bit_word_eqI)
  apply (auto simp add: bit_simps dest: bit_imp_le_length)
  done

lemma PutUint16_Uint16: "PutUint16 (Uint16 [a, b]) = [a, b]"
  unfolding PutUint16_def Uint16_def
  apply simp
  apply (intro conjI; rule bit_word_eqI)
  apply (auto simp add: bit_simps dest: bit_imp_le_length)
  done

subsection \<open>The retry loop and the block loop\<close>

lemma dataPacket_eq: "dataPacket block chunk = PutUint16 opDATA @ PutUint16 block @ chunk"
  by (simp add: dataPacket_def copyAt_def copyBytes_def subslice_def PutUint16_def)

lemma dataPacket_inj: "dataPacket b c = dataPacket b' c' \<Longrightarrow> b = b'"
proof -
  assume "dataPacket b c = dataPacket b' c'"
  then have "PutUint16 b = PutUint16 b'"
    by (simp add: dataPacket_eq PutUint16_def)
  then show ?thesis by (metis Uint16_PutUint16)
qed

lemma retryLoop_shape:
  "\<exists>k env'. retryLoop retries pkt block env = (replicate k pkt, env') \<and> k \<le> 5 - retries
      \<and> (retries < 5 \<longrightarrow> 0 < k)"
proof (induction retries pkt block env rule: retryLoop.induct)
  case (1 retries pkt block env)
  show ?case
  proof (cases "retries < 5")
    case False
    then show ?thesis by (simp add: retryLoop.simps)
  next
    case True
    obtain r rest where nr: "nextResponse env = (r, rest)" by (cases "nextResponse env")
    show ?thesis
    proof (cases "ackFor block r")
      case True
      with \<open>retries < 5\<close> nr have "retryLoop retries pkt block env = (replicate 1 pkt, rest)"
        by (simp add: retryLoop.simps)
      with \<open>retries < 5\<close> show ?thesis by (intro exI[of _ 1] exI[of _ rest]) simp
    next
      case False
      from "1.IH"[OF \<open>retries < 5\<close> nr[symmetric] refl False]
      obtain k env' where k: "retryLoop (retries + 1) pkt block rest = (replicate k pkt, env')"
        "k \<le> 5 - (retries + 1)" by blast
      with \<open>retries < 5\<close> nr False
      have "retryLoop retries pkt block env = (replicate (Suc k) pkt, env')"
        by (simp add: retryLoop.simps[of retries])
      with k(2) \<open>retries < 5\<close> show ?thesis by (intro exI[of _ "Suc k"] exI[of _ env']) simp
    qed
  qed
qed

lemma retryLoop_timeouts: "retryLoop 0 pkt block [] = (replicate 5 pkt, [])"
  by (simp add: retryLoop.simps nextResponse_def ackFor_def numeral_eq_Suc)

lemma chunk_eq:
  "offset \<le> length data \<Longrightarrow>
   subslice data offset (if offset + blockSize > length data then length data else offset + blockSize)
     = take 512 (drop offset data)"
  by (simp add: subslice_def blockSize_def)

lemma transferLoop_last:
  assumes "offset \<le> length data" and "length (take 512 (drop offset data)) < 512"
    and "retryLoop 0 (dataPacket block (take 512 (drop offset data))) block env = (sent, env')"
  shows "transferLoop (Suc n) data block offset env = (sent, Complete)"
proof -
  have "\<not> offset > (if offset + blockSize > length data then length data else offset + blockSize)"
    using assms(1) by simp
  then show ?thesis
    unfolding transferLoop.simps Let_def chunk_eq[OF assms(1)] assms(3)
    using assms(2) by (simp only: if_False blockSize_def if_True split_conv)
qed

lemma transferLoop_full:
  assumes "offset \<le> length data" and "length (take 512 (drop offset data)) = 512"
    and "retryLoop 0 (dataPacket block (take 512 (drop offset data))) block env = (sent, env')"
    and "transferLoop n data (block + 1) (unat block * 512) env' = (later, out)"
  shows "transferLoop (Suc n) data block offset env = (sent @ later, out)"
proof -
  have "\<not> offset > (if offset + blockSize > length data then length data else offset + blockSize)"
    using assms(1) by simp
  moreover have "block + 1 - 1 = block" by simp
  ultimately show ?thesis
    unfolding transferLoop.simps Let_def chunk_eq[OF assms(1)] assms(3)
    using assms(2,4) by (simp only: if_False blockSize_def split_conv less_irrefl)
qed

lemma remdups_adj_replicate_append:
  "0 < m \<Longrightarrow> ys \<noteq> [] \<Longrightarrow> hd ys \<noteq> x \<Longrightarrow>
     remdups_adj (replicate m x @ ys) = x # remdups_adj ys"
  by (cases ys) (simp_all add: remdups_adj_append' remdups_adj_replicate)

lemma transferLoop_blocks:
  assumes "length data div 512 < 65536"
  shows "k \<le> length data div 512 \<Longrightarrow> length data div 512 - k < fuel \<Longrightarrow>
    \<exists>sent. transferLoop fuel data (of_nat (k + 1)) (k * 512) env = (sent, Complete)
       \<and> remdups_adj sent = map (blockOf data) [k..<length data div 512 + 1]"
proof (induction fuel arbitrary: k env)
  case 0
  then show ?case by simp
next
  case (Suc fuel)
  let ?N = "length data div 512"
  let ?chunk = "take 512 (drop (k * 512) data)"
  let ?pkt = "dataPacket (of_nat (k + 1)) ?chunk"
  have off: "k * 512 \<le> length data" using Suc.prems(1) by simp
  obtain m env' where r: "retryLoop 0 ?pkt (of_nat (k + 1)) env = (replicate m ?pkt, env')"
    and m: "0 < m"
    using retryLoop_shape[of 0 ?pkt "of_nat (k + 1)" env] by auto
  have pk: "?pkt = blockOf data k" by (simp add: blockOf_def)
  show ?case
  proof (cases "k = ?N")
    case True
    then have "length ?chunk < 512" by (simp add: minus_mod_eq_mult_div[symmetric] mult.commute)
    then have "transferLoop (Suc fuel) data (of_nat (k + 1)) (k * 512) env
        = (replicate m ?pkt, Complete)"
      using off r by (intro transferLoop_last)
    moreover have "remdups_adj (replicate m ?pkt) = map (blockOf data) [k..<?N + 1]"
      using m True pk by (simp add: remdups_adj_replicate)
    ultimately show ?thesis by blast
  next
    case False
    with Suc.prems have lt: "k < ?N" by simp
    then have full: "length ?chunk = 512" by (simp; presburger)
    have un: "unat (of_nat (k + 1) :: 16 word) = k + 1"
      using lt assms by (simp add: unat_of_nat del: of_nat_Suc of_nat_add)
    have a1: "k + 1 \<le> ?N" using lt by simp
    have a2: "?N - (k + 1) < fuel" using lt Suc.prems(2) by linarith
    from Suc.IH[OF a1 a2, of env']
    obtain later where later: "transferLoop fuel data (of_nat (k + 1 + 1)) ((k + 1) * 512) env'
          = (later, Complete)"
        "remdups_adj later = map (blockOf data) [k + 1..<?N + 1]" by blast
    have later': "transferLoop fuel data (of_nat (k + 1) + 1) (unat (of_nat (k + 1) :: 16 word) * 512) env'
          = (later, Complete)"
      using later(1) unfolding un by (simp add: add.commute)
    have step: "transferLoop (Suc fuel) data (of_nat (k + 1)) (k * 512) env
        = (replicate m ?pkt @ later, Complete)"
      using off full r later' by (rule transferLoop_full)
    have ne: "later \<noteq> []" using later(2) lt by auto
    have "hd later = hd (remdups_adj later)" by simp
    also have "\<dots> = blockOf data (k + 1)" using later(2) lt by (simp add: upt_rec)
    finally have hd: "hd later = blockOf data (k + 1)" .
    have "blockOf data (k + 1) \<noteq> ?pkt"
    proof
      assume "blockOf data (k + 1) = ?pkt"
      then have "(of_nat (k + 1 + 1) :: 16 word) = of_nat (k + 1)"
        unfolding blockOf_def by (rule dataPacket_inj)
      then show False by simp
    qed
    with hd have "hd later \<noteq> ?pkt" by simp
    then have "remdups_adj (replicate m ?pkt @ later) = ?pkt # remdups_adj later"
      using m ne by (simp add: remdups_adj_replicate_append)
    also have "\<dots> = map (blockOf data) [k..<?N + 1]"
      using later(2) lt pk by (simp add: upt_rec[of k])
    finally show ?thesis using step by blast
  qed
qed

lemma unat16_bound: "unat (w :: 16 word) * 512 + 512 \<le> 33554432"
proof -
  have "unat w < 2 ^ 16" using unsigned_less[of w, where 'a=nat] by simp
  then show ?thesis by simp
qed

lemma transferLoop_endless:
  assumes "33554432 \<le> length data"
  shows "snd (transferLoop fuel data block (unat (block - 1) * 512) env) = StillSending"
proof (induction fuel arbitrary: block env)
  case 0
  then show ?case by simp
next
  case (Suc fuel)
  let ?off = "unat (block - 1) * 512"
  have off: "?off + 512 \<le> length data" using unat16_bound[of "block - 1"] assms by linarith
  then have le: "?off \<le> length data" by simp
  have full: "length (take 512 (drop ?off data)) = 512" using off by simp
  obtain sent env' where r: "retryLoop 0 (dataPacket block (take 512 (drop ?off data))) block env
      = (sent, env')" by (cases "retryLoop 0 (dataPacket block (take 512 (drop ?off data))) block env")
  obtain later out where l: "transferLoop fuel data (block + 1) (unat block * 512) env' = (later, out)"
    by (cases "transferLoop fuel data (block + 1) (unat block * 512) env'")
  have "out = StillSending" using Suc.IH[of "block + 1" env'] l by simp
  then show ?case using transferLoop_full[OF le full r l] by simp
qed

lemma transferLoop_packets:
  "pkt \<in> set (fst (transferLoop fuel data block (unat (block - 1) * 512) env)) \<Longrightarrow>
     \<exists>b. pkt = dataPacket b (take 512 (drop (unat (b - 1) * 512) data))"
proof (induction fuel arbitrary: block env)
  case 0
  then show ?case by simp
next
  case (Suc fuel)
  let ?off = "unat (block - 1) * 512"
  let ?pkt = "dataPacket block (take 512 (drop ?off data))"
  show ?case
  proof (cases "?off \<le> length data")
    case False
    then have "transferLoop (Suc fuel) data block ?off env = ([], SlicePanic)"
      by (simp add: blockSize_def)
    with Suc.prems show ?thesis by simp
  next
    case le: True
    obtain m env' where r: "retryLoop 0 ?pkt block env = (replicate m ?pkt, env')"
      using retryLoop_shape[of 0 ?pkt block env] by auto
    show ?thesis
    proof (cases "length (take 512 (drop ?off data)) < 512")
      case True
      from transferLoop_last[OF le True r] Suc.prems have "pkt = ?pkt" by auto
      then show ?thesis by blast
    next
      case False
      then have full: "length (take 512 (drop ?off data)) = 512" by simp
      obtain later out where l: "transferLoop fuel data (block + 1) (unat block * 512) env' = (later, out)"
        by (cases "transferLoop fuel data (block + 1) (unat block * 512) env'")
      from transferLoop_full[OF le full r l] Suc.prems
      have "pkt = ?pkt \<or> pkt \<in> set later" by auto
      then show ?thesis
      proof
        assume "pkt = ?pkt" then show ?thesis by blast
      next
        assume "pkt \<in> set later"
        with l have "pkt \<in> set (fst (transferLoop fuel data (block + 1) (unat (block + 1 - 1) * 512) env'))"
          by simp
        then show ?thesis by (rule Suc.IH)
      qed
    qed
  qed
qed

lemma transferLoop_progress:
  assumes "33554432 \<le> length data"
  shows "fuel \<le> length (fst (transferLoop fuel data block (unat (block - 1) * 512) env))"
proof (induction fuel arbitrary: block env)
  case 0
  then show ?case by simp
next
  case (Suc fuel)
  let ?off = "unat (block - 1) * 512"
  let ?pkt = "dataPacket block (take 512 (drop ?off data))"
  have off: "?off + 512 \<le> length data" using unat16_bound[of "block - 1"] assms by linarith
  then have le: "?off \<le> length data" by simp
  have full: "length (take 512 (drop ?off data)) = 512" using off by simp
  obtain m env' where r: "retryLoop 0 ?pkt block env = (replicate m ?pkt, env')" and m: "0 < m"
    using retryLoop_shape[of 0 ?pkt block env] by auto
  obtain later out where l: "transferLoop fuel data (block + 1) (unat block * 512) env' = (later, out)"
    by (cases "transferLoop fuel data (block + 1) (unat block * 512) env'")
  have "fuel \<le> length later" using Suc.IH[of "block + 1" env'] l by simp
  then show ?case using transferLoop_full[OF le full r l] m by simp
qed

text \<open>Around the counter: the packets of a file of at least \<open>512 * 65536\<close> bytes, in
  order.\<close>

lemma unat16_of_nat: "unat (of_nat j :: 16 word) = j mod 65536"
  by (simp add: unat_of_nat)

lemma wrapBlock_next: "wrapBlock data (j + 1) \<noteq> wrapBlock data j"
proof
  assume "wrapBlock data (j + 1) = wrapBlock data j"
  then have "(of_nat (j + 1 + 1) :: 16 word) = of_nat (j + 1)"
    unfolding wrapBlock_def by (rule dataPacket_inj)
  then show False by simp
qed

lemma transferLoop_cycle:
  assumes "33554432 \<le> length data"
  shows "\<exists>sent. transferLoop fuel data (of_nat (j + 1)) ((j mod 65536) * 512) env = (sent, StillSending)
     \<and> remdups_adj sent = map (wrapBlock data) [j..<j + fuel]"
proof (induction fuel arbitrary: j env)
  case 0
  then show ?case by simp
next
  case (Suc fuel)
  let ?off = "(j mod 65536) * 512"
  let ?pkt = "dataPacket (of_nat (j + 1)) (take 512 (drop ?off data))"
  have "?off + 512 \<le> 33554432" by simp
  then have off: "?off + 512 \<le> length data" using assms by linarith
  then have le: "?off \<le> length data" by simp
  have full: "length (take 512 (drop ?off data)) = 512" using off by simp
  obtain m env' where r: "retryLoop 0 ?pkt (of_nat (j + 1)) env = (replicate m ?pkt, env')"
    and m: "0 < m"
    using retryLoop_shape[of 0 ?pkt "of_nat (j + 1)" env] by auto
  from Suc.IH[of "j + 1" env']
  obtain later where later:
    "transferLoop fuel data (of_nat (j + 1 + 1)) (((j + 1) mod 65536) * 512) env' = (later, StillSending)"
    "remdups_adj later = map (wrapBlock data) [j + 1..<j + 1 + fuel]" by blast
  have later': "transferLoop fuel data (of_nat (j + 1) + 1) (unat (of_nat (j + 1) :: 16 word) * 512) env'
      = (later, StillSending)"
    using later(1) unfolding unat16_of_nat by (simp add: add.commute)
  have step: "transferLoop (Suc fuel) data (of_nat (j + 1)) ?off env
      = (replicate m ?pkt @ later, StillSending)"
    using le full r later' by (rule transferLoop_full)
  have pk: "?pkt = wrapBlock data j" by (simp add: wrapBlock_def)
  have "remdups_adj (replicate m ?pkt @ later) = map (wrapBlock data) [j..<j + Suc fuel]"
  proof (cases "fuel = 0")
    case True
    then have "later = []" using later(2) by simp
    then show ?thesis using m pk True by (simp add: remdups_adj_replicate)
  next
    case False
    then have ne: "later \<noteq> []" using later(2) by auto
    have "hd later = hd (remdups_adj later)" by simp
    also have "\<dots> = wrapBlock data (j + 1)" using later(2) False by (simp add: upt_rec)
    finally have "hd later \<noteq> ?pkt" using wrapBlock_next[of data j] pk by simp
    then have "remdups_adj (replicate m ?pkt @ later) = ?pkt # remdups_adj later"
      using m ne by (simp add: remdups_adj_replicate_append)
    also have "\<dots> = map (wrapBlock data) [j..<j + Suc fuel]"
      using later(2) pk by (simp add: upt_rec[of j])
    finally show ?thesis .
  qed
  with step show ?case by blast
qed

subsection \<open>Path sanitising\<close>

lemma Contains_iff: "Contains s sub \<longleftrightarrow> (\<exists>pre post. s = pre @ sub @ post)"
proof (induction s)
  case Nil
  then show ?case by auto
next
  case (Cons c cs)
  show ?case
  proof
    assume "Contains (c # cs) sub"
    then consider "take (length sub) (c # cs) = sub" | "Contains cs sub" by auto
    then show "\<exists>pre post. c # cs = pre @ sub @ post"
    proof cases
      case 1
      then have "c # cs = [] @ sub @ drop (length sub) (c # cs)"
        by (metis append_Nil append_take_drop_id)
      then show ?thesis by blast
    next
      case 2
      then obtain pre post where "cs = pre @ sub @ post" using Cons.IH by blast
      then have "c # cs = (c # pre) @ sub @ post" by simp
      then show ?thesis by blast
    qed
  next
    assume "\<exists>pre post. c # cs = pre @ sub @ post"
    then obtain pre post where e: "c # cs = pre @ sub @ post" by blast
    show "Contains (c # cs) sub"
    proof (cases pre)
      case Nil
      with e have "take (length sub) (c # cs) = sub" by simp
      then show ?thesis by simp
    next
      case (Cons p ps)
      with e have "cs = ps @ sub @ post" by simp
      then have "Contains cs sub" using Cons.IH by blast
      then show ?thesis by simp
    qed
  qed
qed

lemma elements_nonempty: "elements s \<noteq> []"
  by (induction s) (auto split: list.splits)

lemma hd_elements_prefix: "\<exists>post. s = hd (elements s) @ post"
proof (induction s)
  case Nil
  then show ?case by simp
next
  case (Cons c cs)
  show ?case
  proof (cases "c = CHR ''/''")
    case True
    then show ?thesis by simp
  next
    case False
    obtain x xs where x: "elements cs = x # xs"
      using elements_nonempty[of cs] by (cases "elements cs") auto
    from Cons.IH x obtain post where "cs = x @ post" by auto
    then have "c # cs = hd (elements (c # cs)) @ post" using False x by simp
    then show ?thesis by blast
  qed
qed

lemma element_infix: "e \<in> set (elements s) \<Longrightarrow> \<exists>pre post. s = pre @ e @ post"
proof (induction s arbitrary: e)
  case Nil
  then show ?case by simp
next
  case (Cons c cs)
  show ?case
  proof (cases "c = CHR ''/''")
    case True
    with Cons.prems have "e = [] \<or> e \<in> set (elements cs)" by auto
    then show ?thesis
    proof
      assume "e = []"
      then have "c # cs = [] @ e @ (c # cs)" by simp
      then show ?thesis by blast
    next
      assume "e \<in> set (elements cs)"
      then obtain pre post where "cs = pre @ e @ post" using Cons.IH by blast
      then have "c # cs = (c # pre) @ e @ post" by simp
      then show ?thesis by blast
    qed
  next
    case False
    obtain x xs where x: "elements cs = x # xs"
      using elements_nonempty[of cs] by (cases "elements cs") auto
    with False Cons.prems have "e = c # x \<or> e \<in> set xs" by auto
    then show ?thesis
    proof
      assume e: "e = c # x"
      obtain post where "cs = x @ post" using hd_elements_prefix[of cs] x by auto
      then have "c # cs = [] @ e @ post" using e by simp
      then show ?thesis by blast
    next
      assume "e \<in> set xs"
      then have "e \<in> set (elements cs)" using x by simp
      then obtain pre post where "cs = pre @ e @ post" using Cons.IH by blast
      then have "c # cs = (c # pre) @ e @ post" by simp
      then show ?thesis by blast
    qed
  qed
qed

lemma parentSegment_Contains: "hasParentSegment p \<Longrightarrow> Contains p ''..''"
  unfolding hasParentSegment_def Contains_iff by (rule element_infix)

subsection \<open>Block numbers\<close>

lemma blockNumber_dataPacket: "blockNumber (dataPacket b c) = unat b"
  by (simp add: blockNumber_def dataPacket_eq subslice_def PutUint16_def Uint16_PutUint16[unfolded PutUint16_def])

lemma payload_dataPacket: "payload (dataPacket b c) = c"
  by (simp add: payload_def dataPacket_eq PutUint16_def)

lemma blockNumber_wrapBlock: "blockNumber (wrapBlock data k) = (k + 1) mod 65536"
  unfolding wrapBlock_def blockNumber_dataPacket by (rule unat16_of_nat)

lemma payload_wrapBlock: "payload (wrapBlock data k) = take 512 (drop ((k mod 65536) * 512) data)"
  unfolding wrapBlock_def by (rule payload_dataPacket)

lemma blockNumber_blockOf: "k < 65535 \<Longrightarrow> blockNumber (blockOf data k) = k + 1"
  by (simp add: blockOf_def blockNumber_dataPacket unat_of_nat del: of_nat_Suc of_nat_add)

lemma blockNumbers_upto:
  "n \<le> 65535 \<Longrightarrow> map blockNumber (map (blockOf data) [0..<n]) = [1..<n + 1]"
proof (induction n)
  case 0
  then show ?case by simp
next
  case (Suc n)
  then show ?case by (simp add: blockNumber_blockOf)
qed

lemma block_count: "S div 512 + 1 = (S + 511) div 512 + (if S mod 512 = 0 then 1 else 0)"
  for S :: nat
proof -
  define q r where "q = S div 512" and "r = S mod 512"
  have S: "S = 512 * q + r" and r: "r < 512" by (simp_all add: q_def r_def)
  show ?thesis
  proof (cases "r = 0")
    case True
    have "(S + 511) div 512 = q"
      by (rule div_nat_eqI) (use S True in simp_all)
    then show ?thesis using True by (simp flip: q_def r_def)
  next
    case False
    have "(S + 511) div 512 = q + 1"
      by (rule div_nat_eqI) (use S False r in simp_all)
    then show ?thesis using False by (simp flip: q_def r_def)
  qed
qed


subsection \<open>The encoder writes the wire layout\<close>

lemma length_copyBytes [simp]: "length (copyBytes dst src) = length dst"
  by (simp add: copyBytes_def)

lemma copyBytes_exact [simp]: "length src = length dst \<Longrightarrow> copyBytes dst src = src"
  by (simp add: copyBytes_def)

lemma copyBytes_pad:
  "copyBytes (replicate n z) src = take n src @ replicate (n - length src) z"
  by (simp add: copyBytes_def)

lemma length_copyAt [simp]: "lo \<le> hi \<Longrightarrow> hi \<le> length buf \<Longrightarrow> length (copyAt buf lo hi src) = length buf"
  by (simp add: copyAt_def subslice_def)

lemma copyAt_fill:
  assumes "length X = lo" and "w \<le> k"
  shows "copyAt (X @ replicate k z) lo (lo + w) src
     = (X @ copyBytes (replicate w z) src) @ replicate (k - w) z"
  using assms by (simp add: copyAt_def subslice_def copyBytes_def min_def)

lemma update_fill:
  assumes "length X = i" and "0 < k"
  shows "(X @ replicate k z)[i := v] = (X @ [v]) @ replicate (k - 1) z"
proof -
  obtain k' where k: "k = Suc k'" using assms(2) by (cases k) auto
  show ?thesis using assms(1) unfolding k by (simp add: list_update_append)
qed

lemma skip_fill:
  assumes "w \<le> k"
  shows "X @ replicate k z = (X @ replicate w z) @ replicate (k - w) z"
  using assms by (simp add: replicate_add[symmetric])

lemma length_fixedHeader [simp]: "length (fixedHeader p) = 240"
  by (simp add: fixedHeader_def PutUint32_def PutUint16_def)

lemma filled_update:
  assumes "length X \<le> i" and "i - length X < k"
  shows "(filled X k)[i := v] = filled (X @ replicate (i - length X) 0 @ [v]) (k - (i - length X) - 1)"
proof -
  let ?g = "i - length X"
  have "filled X k = (X @ replicate ?g 0) @ replicate (k - ?g) 0"
    unfolding filled_def using assms by (intro skip_fill) simp
  moreover have "length (X @ replicate ?g 0) = i" using assms by simp
  moreover have "0 < k - ?g" using assms by simp
  ultimately show ?thesis
    using update_fill[of "X @ replicate ?g 0" i "k - ?g" 0 v] by (simp add: filled_def)
qed

lemma filled_copyAt:
  assumes "length X \<le> lo" and "lo \<le> hi" and "hi - length X \<le> k"
  shows "copyAt (filled X k) lo hi src
    = filled (X @ replicate (lo - length X) 0 @ copyBytes (replicate (hi - lo) 0) src) (k - (hi - length X))"
proof -
  let ?g = "lo - length X"
  have "filled X k = (X @ replicate ?g 0) @ replicate (k - ?g) 0"
    unfolding filled_def using assms by (intro skip_fill) simp
  moreover have "length (X @ replicate ?g 0) = lo" using assms by simp
  moreover have "hi - lo \<le> k - ?g" using assms by simp
  moreover have "lo + (hi - lo) = hi" using assms by simp
  ultimately show ?thesis
    using copyAt_fill[of "X @ replicate ?g 0" lo "hi - lo" "k - ?g" 0 src] assms
    by (simp add: filled_def)
qed

lemma To4_Nil [simp]: "To4 [] = []"
  by (simp add: To4_def)

lemma length_PutUint16 [simp]: "length (PutUint16 v) = 2" by (simp add: PutUint16_def)
lemma length_PutUint32 [simp]: "length (PutUint32 v) = 4" by (simp add: PutUint32_def)

lemma header_buffer:
  "(let buf = replicate 576 0;
          buf = buf[0 := Op p];
          buf = buf[1 := HType p];
          buf = buf[2 := HLen p];
          buf = buf[3 := Hops p];
          buf = copyAt buf 4 8 (PutUint32 (XID p));
          buf = copyAt buf 8 10 (PutUint16 (Secs p));
          buf = copyAt buf 10 12 (PutUint16 (Flags p));
          buf = (if CIAddr p \<noteq> [] then copyAt buf 12 16 (To4 (CIAddr p)) else buf);
          buf = copyAt buf 16 20 (YIAddr p);
          buf = copyAt buf 20 24 (SIAddr p);
          buf = (if GIAddr p \<noteq> [] then copyAt buf 24 28 (To4 (GIAddr p)) else buf);
          buf = copyAt buf 28 34 (CHAddr p);
          buf = copyAt buf 44 108 (SName p);
          buf = copyAt buf 108 236 (File p);
          buf = buf[236 := 99];
          buf = buf[237 := 130];
          buf = buf[238 := 83];
          buf = buf[239 := 99]
     in buf) = filled (fixedHeader p) 336"
proof -
  have z: "replicate 576 (0 :: byte) = filled [] 576" by (simp add: filled_def)
  show ?thesis
    unfolding Let_def z
    by (simp add: filled_update filled_copyAt fixedHeader_def copyBytes_pad[of _ _ "[]"])
qed

lemma encodeAll_Nil [simp]: "encodeAll opts [] = []" by (simp add: encodeAll_def)
lemma encodeAll_Cons [simp]: "encodeAll opts (k # ks) = encodeOption k (the (opts k)) @ encodeAll opts ks"
  by (simp add: encodeAll_def)

lemma length_filled [simp]: "length (filled X k) = length X + k" by (simp add: filled_def)

lemma filled_absorb: "filled (X @ replicate j 0) m = filled X (j + m)"
  by (simp add: filled_def replicate_add)

lemma write_one:
  assumes "length X = i" and "2 + length data < k"
  shows "copyAt ((filled X k)[i := opt, i + 1 := len]) (i + 2) (i + k) data
    = filled (X @ [opt, len] @ data) (k - 2 - length data)"
proof -
  have 1: "(filled X k)[i := opt] = filled (X @ [opt]) (k - 1)"
    using filled_update[of X i k opt] assms by simp
  have 2: "(filled (X @ [opt]) (k - 1))[i + 1 := len] = filled (X @ [opt, len]) (k - 2)"
    using filled_update[of "X @ [opt]" "i + 1" "k - 1" len] assms by (simp add: numeral_2_eq_2)
  have 3: "copyAt (filled (X @ [opt, len]) (k - 2)) (i + 2) (i + k) data
      = filled (X @ [opt, len] @ copyBytes (replicate (k - 2) 0) data) 0"
    using filled_copyAt[of "X @ [opt, len]" "i + 2" "i + k" "k - 2" data] assms by simp
  have 4: "copyBytes (replicate (k - 2) 0) data = data @ replicate (k - 2 - length data) 0"
    using assms by (simp add: copyBytes_pad)
  have "filled (X @ [opt, len] @ data @ replicate (k - 2 - length data) 0) 0
      = filled (X @ [opt, len] @ data) (k - 2 - length data)"
    using filled_absorb[of "X @ [opt, len] @ data" "k - 2 - length data" 0] by simp
  then show ?thesis unfolding 1 2 3 4 .
qed

lemma writeOptions_filled:
  assumes "length X = i" and "0 < k"
  shows "writeOptions opts order (filled X k) i
      = (filled (X @ encodeAll opts (written opts order i (i + k)))
            (k - length (encodeAll opts (written opts order i (i + k)))),
         i + length (encodeAll opts (written opts order i (i + k))))
     \<and> length (encodeAll opts (written opts order i (i + k))) < k"
  using assms
proof (induction order arbitrary: X i k)
  case Nil
  then show ?case by simp
next
  case (Cons opt rest)
  show ?case
  proof (cases "opts opt")
    case None
    with Cons show ?thesis by simp
  next
    case (Some data)
    show ?thesis
    proof (cases "i + 2 + length data \<ge> i + k")
      case True
      with Some Cons.prems show ?thesis by simp
    next
      case False
      then have fit: "2 + length data < k" by simp
      let ?X = "X @ [opt, of_nat (length data)] @ data"
      let ?i = "i + 2 + length data"
      let ?k = "k - 2 - length data"
      have w: "copyAt ((filled X k)[i := opt, i + 1 := of_nat (length data)]) (i + 2) (i + k) data
          = filled ?X ?k"
        using write_one[OF Cons.prems(1) fit] .
      have l: "length ?X = ?i" using Cons.prems(1) by simp
      have k: "0 < ?k" using fit by simp
      have n: "?i + ?k = i + k" using fit by simp
      note IH = Cons.IH[OF l k, unfolded n]
      have step: "writeOptions opts (opt # rest) (filled X k) i = writeOptions opts rest (filled ?X ?k) ?i"
        using Some False Cons.prems(1) w by (simp add: Let_def)
      have wr: "written opts (opt # rest) i (i + k) = opt # written opts rest ?i (i + k)"
        using Some False by simp
      show ?thesis
        unfolding step wr using IH Some fit
        by (auto simp add: encodeOption_def)
    qed
  qed
qed

lemma serializePacket_eq:
  "serializePacket p order
     = fixedHeader p @ encodeAll (Options p) (written (Options p) order 240 576) @ [OptEnd]"
proof -
  let ?E = "encodeAll (Options p) (written (Options p) order 240 576)"
  have w: "writeOptions (Options p) order (filled (fixedHeader p) 336) 240
      = (filled (fixedHeader p @ ?E) (336 - length ?E), 240 + length ?E)"
    and lt: "length ?E < 336"
    using writeOptions_filled[of "fixedHeader p" 240 336 "Options p" order] by simp_all
  have e: "(filled (fixedHeader p @ ?E) (336 - length ?E))[240 + length ?E := OptEnd]
      = filled ((fixedHeader p @ ?E) @ [OptEnd]) (336 - length ?E - 1)"
    using filled_update[of "fixedHeader p @ ?E" "240 + length ?E" "336 - length ?E" OptEnd] lt
    by simp
  have "serializePacket p order
      = take (240 + length ?E + 1) (filled ((fixedHeader p @ ?E) @ [OptEnd]) (336 - length ?E - 1))"
    unfolding serializePacket_def
    using header_buffer[of p, unfolded Let_def] by (simp only: Let_def w split_conv e)
  then show ?thesis by (simp add: filled_def)
qed

subsection \<open>The decoder on encoded packets\<close>

lemma written_all:
  "set order \<subseteq> dom opts \<Longrightarrow> i + optionsSize opts order < n \<Longrightarrow> written opts order i n = order"
proof (induction order arbitrary: i)
  case Nil
  then show ?case by simp
next
  case (Cons k ks)
  then obtain v where v: "opts k = Some v" by auto
  have "i + 2 + length v + optionsSize opts ks < n"
    using Cons.prems(2) v by (simp add: optionsSize_def)
  moreover from this have "written opts ks (i + 2 + length v) n = ks"
    using Cons.IH[of "i + 2 + length v"] Cons.prems(1) by simp
  ultimately show ?case using v by simp
qed

lemma parseOptions_shift:
  "parseOptions (pre @ data) (length pre + i) m = parseOptions data i m"
proof (induction data i m rule: parseOptions.induct)
  case (1 data i opts)
  show ?case
  proof (cases "i < length data")
    case False
    then show ?thesis
      by (simp add: parseOptions.simps[of "pre @ data"] parseOptions.simps[of data])
  next
    case True
    let ?opt = "data ! i"
    have nth: "(pre @ data) ! (length pre + i) = ?opt" by (simp add: nth_append)
    show ?thesis
    proof (cases "?opt = OptEnd")
      case True
      with \<open>i < length data\<close> nth show ?thesis
        by (simp add: parseOptions.simps[of "pre @ data"] parseOptions.simps[of data])
    next
      case nend: False
      show ?thesis
      proof (cases "?opt = 0")
        case True
        from "1.IH"(1)[OF \<open>i < length data\<close> refl nend True]
        have "parseOptions (pre @ data) (length pre + (i + 1)) opts = parseOptions data (i + 1) opts" .
        with \<open>i < length data\<close> nth nend True show ?thesis
          by (simp add: parseOptions.simps[of "pre @ data" "length pre + i"] parseOptions.simps[of data i]
              add.assoc)
      next
        case nz: False
        show ?thesis
        proof (cases "i + 1 \<ge> length data")
          case True
          with \<open>i < length data\<close> nth nend nz show ?thesis
            by (simp add: parseOptions.simps[of "pre @ data" "length pre + i"] parseOptions.simps[of data i])
        next
          case more: False
          let ?len = "unat (data ! (i + 1))"
          have nth1: "(pre @ data) ! (length pre + i + 1) = data ! (i + 1)"
            by (simp add: nth_append)
          show ?thesis
          proof (cases "i + 2 + ?len > length data")
            case True
            with \<open>i < length data\<close> nth nth1 nend nz more show ?thesis
              by (simp add: parseOptions.simps[of "pre @ data" "length pre + i"] parseOptions.simps[of data i] Let_def)
          next
            case fits: False
            let ?v = "copyBytes (replicate ?len 0) (subslice data (i + 2) (i + 2 + ?len))"
            have sl: "subslice (pre @ data) (length pre + i + 2) (length pre + i + 2 + ?len)
                = subslice data (i + 2) (i + 2 + ?len)"
              by (simp add: subslice_def)
            from "1.IH"(2)[OF \<open>i < length data\<close> refl nend nz more refl fits refl]
            have "parseOptions (pre @ data) (length pre + (i + 2 + ?len)) (opts(?opt \<mapsto> ?v))
                = parseOptions data (i + 2 + ?len) (opts(?opt \<mapsto> ?v))" .
            with \<open>i < length data\<close> nth nth1 nend nz more fits sl show ?thesis
              by (simp add: parseOptions.simps[of "pre @ data" "length pre + i"] parseOptions.simps[of data i]
                  Let_def add.assoc)
          qed
        qed
      qed
    qed
  qed
qed

lemma parseOptions_shift0: "parseOptions (pre @ data) (length pre) m = parseOptions data 0 m"
  using parseOptions_shift[of pre data 0 m] by simp

lemma parseOptions_End: "parseOptions (OptEnd # rest) 0 m = m"
  by (simp add: parseOptions.simps[of _ 0])

lemma parseOptions_one:
  assumes "k \<noteq> 0" and "k \<noteq> OptEnd" and "length v \<le> 255"
  shows "parseOptions (encodeOption k v @ rest) 0 m = parseOptions rest 0 (m(k \<mapsto> v))"
proof -
  have u: "unat (of_nat (length v) :: byte) = length v"
    using assms(3) by (simp add: unat_of_nat)
  have s: "subslice (encodeOption k v @ rest) 2 (2 + length v) = v"
    by (simp add: subslice_def encodeOption_def)
  have "parseOptions (encodeOption k v @ rest) 0 m
      = parseOptions (encodeOption k v @ rest) (length (encodeOption k v)) (m(k \<mapsto> v))"
    using assms(1,2) u s
    by (simp add: parseOptions.simps[of _ 0 m] Let_def encodeOption_def)
       (simp add: subslice_def)
  then show ?thesis by (simp only: parseOptions_shift0)
qed

lemma parseOptions_encodeAll:
  assumes "\<forall>k \<in> set ks. \<exists>v. opts k = Some v \<and> k \<noteq> 0 \<and> k \<noteq> OptEnd \<and> length v \<le> 255"
  shows "parseOptions (encodeAll opts ks @ [OptEnd]) 0 m
     = (\<lambda>x. if x \<in> set ks then opts x else m x)"
  using assms
proof (induction ks arbitrary: m)
  case Nil
  then show ?case by (simp add: parseOptions_End)
next
  case (Cons k ks)
  then obtain v where v: "opts k = Some v" "k \<noteq> 0" "k \<noteq> OptEnd" "length v \<le> 255" by auto
  have "parseOptions (encodeAll opts (k # ks) @ [OptEnd]) 0 m
      = parseOptions (encodeAll opts ks @ [OptEnd]) 0 (m(k \<mapsto> v))"
    using parseOptions_one[OF v(2,3,4), of "encodeAll opts ks @ [OptEnd]" m] v(1) by simp
  also have "\<dots> = (\<lambda>x. if x \<in> set ks then opts x else (m(k \<mapsto> v)) x)"
    by (rule Cons.IH) (use Cons.prems in simp)
  also have "\<dots> = (\<lambda>x. if x \<in> set (k # ks) then opts x else m x)"
    using v(1) by auto
  finally show ?case .
qed

lemma parse_fixedHeader:
  assumes "length (CIAddr p) = 4" "length (YIAddr p) = 4" "length (SIAddr p) = 4"
    "length (GIAddr p) = 4" "length (CHAddr p) = 6" "length (SName p) = 64"
    "length (File p) = 128" and "rest \<noteq> []"
  shows "parsePacket (fixedHeader p @ rest)
      = Inr (p\<lparr>Options := parseOptions rest 0 Map.empty\<rparr>)"
proof -
  let ?d = "fixedHeader p @ rest"
  have t: "To4 (CIAddr p) = CIAddr p" "To4 (GIAddr p) = GIAddr p"
    using assms by (simp_all add: To4_def)
  have h: "fixedHeader p = [Op p, HType p, HLen p, Hops p] @ PutUint32 (XID p) @ PutUint16 (Secs p)
       @ PutUint16 (Flags p) @ CIAddr p @ YIAddr p @ SIAddr p @ GIAddr p @ CHAddr p
       @ replicate 10 0 @ SName p @ File p @ [99, 130, 83, 99]"
    using assms by (simp add: fixedHeader_def t)
  have n: "?d ! 0 = Op p" "?d ! 1 = HType p" "?d ! 2 = HLen p" "?d ! 3 = Hops p"
    by (simp_all add: h)
  have x: "subslice ?d 4 8 = PutUint32 (XID p)" by (simp add: h subslice_def)
  have s: "subslice ?d 8 10 = PutUint16 (Secs p)" by (simp add: h subslice_def)
  have f: "subslice ?d 10 12 = PutUint16 (Flags p)" by (simp add: h subslice_def)
  have c: "subslice ?d 12 16 = CIAddr p" using assms by (simp add: h subslice_def)
  have y: "subslice ?d 16 20 = YIAddr p" using assms by (simp add: h subslice_def)
  have si: "subslice ?d 20 24 = SIAddr p" using assms by (simp add: h subslice_def)
  have g: "subslice ?d 24 28 = GIAddr p" using assms by (simp add: h subslice_def)
  have ch: "subslice ?d 28 34 = CHAddr p" using assms by (simp add: h subslice_def)
  have sn: "subslice ?d 44 108 = SName p" using assms by (simp add: h subslice_def)
  have fi: "subslice ?d 108 236 = File p" using assms by (simp add: h subslice_def)
  have ck: "?d ! 236 = 99" "?d ! 237 = 130" "?d ! 238 = 83" "?d ! 239 = 99"
    using assms by (simp_all add: h nth_append)
  have len: "length ?d > 240" using assms(8) by (cases rest) simp_all
  have po: "parseOptions ?d 240 Map.empty = parseOptions rest 0 Map.empty"
    using parseOptions_shift0[of "fixedHeader p" rest Map.empty] by simp
  show ?thesis
    unfolding parsePacket_def Let_def n x s f c y si g ch sn fi ck po
    using len assms by (simp add: Uint32_PutUint32 Uint16_PutUint16)
qed

lemma parseOptions_wf: "wfOptions m \<Longrightarrow> wfOptions (parseOptions data i m)"
proof (induction data i m rule: parseOptions.induct)
  case (1 data i opts)
  show ?case
  proof (cases "i < length data")
    case False
    then show ?thesis using "1.prems" by (simp add: parseOptions.simps[of data i])
  next
    case True
    let ?opt = "data ! i"
    show ?thesis
    proof (cases "?opt = OptEnd")
      case True
      then show ?thesis using "1.prems" \<open>i < length data\<close> by (simp add: parseOptions.simps[of data i])
    next
      case nend: False
      show ?thesis
      proof (cases "?opt = 0")
        case True
        note w = "1.IH"(1)[OF \<open>i < length data\<close> refl nend True "1.prems"]
        have eq: "parseOptions data i opts = parseOptions data (i + 1) opts"
          using \<open>i < length data\<close> nend True by (simp add: parseOptions.simps[of data i])
        show ?thesis unfolding eq by (rule w)
      next
        case nz: False
        show ?thesis
        proof (cases "i + 1 \<ge> length data")
          case True
          then show ?thesis using "1.prems" \<open>i < length data\<close> nend nz
            by (simp add: parseOptions.simps[of data i])
        next
          case more: False
          let ?len = "unat (data ! (i + 1))"
          show ?thesis
          proof (cases "i + 2 + ?len > length data")
            case True
            then show ?thesis using "1.prems" \<open>i < length data\<close> nend nz more
              by (simp add: parseOptions.simps[of data i] Let_def)
          next
            case fits: False
            let ?v = "copyBytes (replicate ?len 0) (subslice data (i + 2) (i + 2 + ?len))"
            have "?len \<le> 255" using unsigned_less[of "data ! (i + 1)", where 'a = nat] by simp
            then have "wfOptions (opts(?opt \<mapsto> ?v))"
              using "1.prems" nend nz by (simp add: wfOptions_def)
            note w = "1.IH"(2)[OF \<open>i < length data\<close> refl nend nz more refl fits refl this]
            have eq: "parseOptions data i opts = parseOptions data (i + 2 + ?len) (opts(?opt \<mapsto> ?v))"
              using \<open>i < length data\<close> nend nz more fits
              by (simp add: parseOptions.simps[of data i] Let_def)
            show ?thesis unfolding eq by (rule w)
          qed
        qed
      qed
    qed
  qed
qed

lemma wfOptions_empty: "wfOptions Map.empty" by (simp add: wfOptions_def)

lemma parsePacket_shape:
  assumes "parsePacket d = Inr p"
  shows "length (CIAddr p) = 4" "length (YIAddr p) = 4" "length (SIAddr p) = 4"
    "length (GIAddr p) = 4" "length (CHAddr p) = 6" "length (SName p) = 64"
    "length (File p) = 128" "wfOptions (Options p)"
  using assms parseOptions_wf[OF wfOptions_empty, of d 240]
  by (auto simp add: parsePacket_def Let_def wfOptions_empty split: if_splits)


lemma sample_parse:
  "parsePacket ([1, 1, 6, 0, 0x12, 0x34, 0x56, 0x78, 0, 0, 0x80, 0] @ replicate 16 0
        @ [0xaa, 0xbb, 0xcc, 0xdd, 0xee, 0x01] @ replicate 10 0 @ replicate 192 0
        @ [99, 130, 83, 99] @ [53, 1, 1, 0, 93, 2, 0, 7, 255])
   = Inr \<lparr>Op = 1, HType = 1, HLen = 6, Hops = 0, XID = 0x12345678, Secs = 0, Flags = 0x8000,
          CIAddr = [0, 0, 0, 0], YIAddr = [0, 0, 0, 0], SIAddr = [0, 0, 0, 0],
          GIAddr = [0, 0, 0, 0], CHAddr = [0xaa, 0xbb, 0xcc, 0xdd, 0xee, 0x01],
          SName = replicate 64 0, File = replicate 128 0,
          Options = [53 \<mapsto> [1], 93 \<mapsto> [0, 7]]\<rparr>"
proof -
  let ?pre = "[1, 1, 6, 0, 0x12, 0x34, 0x56, 0x78, 0, 0, 0x80, 0] @ replicate 16 0
        @ [0xaa, 0xbb, 0xcc, 0xdd, 0xee, 0x01] @ replicate 10 0 @ replicate 192 (0 :: byte)
        @ [99, 130, 83, 99]"
  let ?opts = "[53, 1, 1, 0, 93, 2, 0, 7, 255 :: byte]"
  have l: "length ?pre = 240" by simp
  have o: "parseOptions (?pre @ ?opts) 240 Map.empty = [53 \<mapsto> [1], 93 \<mapsto> [0, 7]]"
    using parseOptions_shift0[of ?pre ?opts Map.empty] unfolding l
    by (simp add: parseOptions.simps[of ?opts] OptEnd_def subslice_def copyBytes_def Let_def)
  have x: "Uint32 [0x12, 0x34, 0x56, 0x78] = 0x12345678" by (simp add: Uint32_def)
  have f: "Uint16 [0x80, 0] = 0x8000" by (simp add: Uint16_def)
  have z: "Uint16 [0, 0] = 0" by (simp add: Uint16_def)
  have r4: "replicate 4 (0 :: byte) = [0, 0, 0, 0]" by (simp add: numeral_eq_Suc)
  show ?thesis
    unfolding parsePacket_def Let_def
    using o by (simp add: subslice_def nth_append x f z r4)
qed

lemma parse_sampleDiscover: "parsePacket sampleDiscover = Inr samplePacket"
  unfolding sampleDiscover_def samplePacket_def by (rule sample_parse)

text \<open>The header bytes of a decoded packet, and the options of a well-formed option
  field.\<close>

lemma subslice_append:
  "a \<le> b \<Longrightarrow> b \<le> c \<Longrightarrow> subslice d a b @ subslice d b c = subslice d a c"
proof -
  assume "a \<le> b" "b \<le> c"
  then have "c - a = (b - a) + (c - b)" by simp
  then have "take (c - a) (drop a d) = take (b - a) (drop a d) @ take (c - b) (drop (b - a) (drop a d))"
    by (simp only: take_add)
  then show ?thesis using \<open>a \<le> b\<close> by (simp add: subslice_def)
qed

lemma PutUint32_Uint32_len: "length xs = 4 \<Longrightarrow> PutUint32 (Uint32 xs) = xs"
proof -
  assume "length xs = 4"
  then obtain a b c d where "xs = [a, b, c, d]"
    by (auto simp add: numeral_eq_Suc length_Suc_conv)
  then show ?thesis by (simp only: PutUint32_Uint32)
qed

lemma PutUint16_Uint16_len: "length xs = 2 \<Longrightarrow> PutUint16 (Uint16 xs) = xs"
proof -
  assume "length xs = 2"
  then obtain a b where "xs = [a, b]"
    by (auto simp add: numeral_eq_Suc length_Suc_conv)
  then show ?thesis by (simp only: PutUint16_Uint16)
qed

lemma first_four: "4 \<le> length d \<Longrightarrow> [d ! 0, d ! 1, d ! 2, d ! 3] = subslice d 0 4"
  by (cases d; cases "tl d"; cases "tl (tl d)"; cases "tl (tl (tl d))")
     (auto simp add: subslice_def)

lemma parse_header_bytes:
  assumes "parsePacket d = Inr p"
  shows "fixedHeader p = take 34 d @ replicate 10 0 @ subslice d 44 236 @ [99, 130, 83, 99]"
proof -
  have len: "240 \<le> length d" using assms by (auto simp add: parsePacket_def split: if_splits)
  have f: "Op p = d ! 0" "HType p = d ! 1" "HLen p = d ! 2" "Hops p = d ! 3"
    "XID p = Uint32 (subslice d 4 8)" "Secs p = Uint16 (subslice d 8 10)"
    "Flags p = Uint16 (subslice d 10 12)"
    "CIAddr p = copyBytes (replicate 4 0) (subslice d 12 16)"
    "YIAddr p = copyBytes (replicate 4 0) (subslice d 16 20)"
    "SIAddr p = copyBytes (replicate 4 0) (subslice d 20 24)"
    "GIAddr p = copyBytes (replicate 4 0) (subslice d 24 28)"
    "CHAddr p = copyBytes (replicate 6 0) (subslice d 28 34)"
    "SName p = copyBytes (replicate 64 0) (subslice d 44 108)"
    "File p = copyBytes (replicate 128 0) (subslice d 108 236)"
    using assms by (auto simp add: parsePacket_def Let_def split: if_splits)
  have l: "length (subslice d 4 8) = 4" "length (subslice d 8 10) = 2" "length (subslice d 10 12) = 2"
    "length (subslice d 12 16) = 4" "length (subslice d 16 20) = 4" "length (subslice d 20 24) = 4"
    "length (subslice d 24 28) = 4" "length (subslice d 28 34) = 6" "length (subslice d 44 108) = 64"
    "length (subslice d 108 236) = 128"
    using len by (simp_all add: length_subslice)
  have g: "CIAddr p = subslice d 12 16" "YIAddr p = subslice d 16 20" "SIAddr p = subslice d 20 24"
    "GIAddr p = subslice d 24 28" "CHAddr p = subslice d 28 34" "SName p = subslice d 44 108"
    "File p = subslice d 108 236"
    unfolding f using l by simp_all
  have t: "To4 (subslice d 12 16) = subslice d 12 16" "To4 (subslice d 24 28) = subslice d 24 28"
    using l by (simp_all add: To4_def)
  have "fixedHeader p = subslice d 0 4 @ subslice d 4 8 @ subslice d 8 10 @ subslice d 10 12
      @ subslice d 12 16 @ subslice d 16 20 @ subslice d 20 24 @ subslice d 24 28 @ subslice d 28 34
      @ replicate 10 0 @ subslice d 44 108 @ subslice d 108 236 @ [99, 130, 83, 99]"
    unfolding fixedHeader_def g t f(1-7) using len l
    by (simp add: first_four[symmetric] PutUint32_Uint32_len PutUint16_Uint16_len)
  also have "\<dots> = (subslice d 0 4 @ subslice d 4 8 @ subslice d 8 10 @ subslice d 10 12
      @ subslice d 12 16 @ subslice d 16 20 @ subslice d 20 24 @ subslice d 24 28 @ subslice d 28 34)
      @ replicate 10 0 @ (subslice d 44 108 @ subslice d 108 236) @ [99, 130, 83, 99]"
    by (simp only: append_assoc)
  also have "\<dots> = subslice d 0 34 @ replicate 10 0 @ subslice d 44 236 @ [99, 130, 83, 99]"
  proof -
    have a: "subslice d 0 4 @ subslice d 4 8 @ subslice d 8 10 @ subslice d 10 12
      @ subslice d 12 16 @ subslice d 16 20 @ subslice d 20 24 @ subslice d 24 28 @ subslice d 28 34
      = subslice d 0 34"
      by (simp add: subslice_append)
    have b: "subslice d 44 108 @ subslice d 108 236 = subslice d 44 236"
      by (simp add: subslice_append)
    show ?thesis by (simp only: a b)
  qed
  finally show ?thesis by (simp add: subslice_def)
qed

lemma drop_exact: "length xs = n \<Longrightarrow> drop n (xs @ ys) = ys"
  by simp

lemma parseOptions_Pad: "parseOptions (0 # rest) 0 m = parseOptions rest 0 m"
proof -
  have "parseOptions (0 # rest) 0 m = parseOptions ([0] @ rest) (length [0 :: byte]) m"
    by (simp add: parseOptions.simps[of "0 # rest" 0] OptEnd_def)
  then show ?thesis by (simp only: parseOptions_shift0)
qed

lemma parseOptions_items:
  "wfItems its \<Longrightarrow> parseOptions (encodeItems its @ OptEnd # rest) 0 m = optionsOf its m"
proof (induction its arbitrary: m rule: encodeItems.induct)
  case 1
  then show ?case by (simp add: parseOptions_End)
next
  case (2 its)
  then show ?case by (simp add: parseOptions_Pad)
next
  case (3 k v its)
  then have w: "k \<noteq> 0" "k \<noteq> OptEnd" "length v \<le> 255" "wfItems its" by (simp_all add: OptEnd_def)
  have "parseOptions (encodeItems (Opt k v # its) @ OptEnd # rest) 0 m
      = parseOptions (encodeOption k v @ (encodeItems its @ OptEnd # rest)) 0 m"
    by (simp add: encodeOption_def)
  also have "\<dots> = parseOptions (encodeItems its @ OptEnd # rest) 0 (m(k \<mapsto> v))"
    by (rule parseOptions_one[OF w(1,2,3)])
  also have "\<dots> = optionsOf its (m(k \<mapsto> v))" by (rule "3.IH"[OF w(4)])
  finally show ?case by simp
qed

lemma parse_items:
  assumes "parsePacket d = Inr p"
    and "d = hdr @ [99, 130, 83, 99] @ encodeItems its @ OptEnd # rest"
    and "length hdr = 236" and "wfItems its"
  shows "Options p = optionsOf its Map.empty"
proof -
  let ?pre = "hdr @ [99, 130, 83, 99]"
  let ?o = "encodeItems its @ OptEnd # rest"
  have d: "d = ?pre @ ?o" using assms(2) by simp
  have l: "length ?pre = 240" using assms(3) by simp
  have c: "d ! 236 = 99" "d ! 237 = 130" "d ! 238 = 83" "d ! 239 = 99" "length d > 240"
    using assms(3) unfolding assms(2) by (simp_all add: nth_append)
  have "Options p = parseOptions d 240 Map.empty"
    using assms(1) c by (auto simp add: parsePacket_def Let_def split: if_splits)
  also have "\<dots> = parseOptions ?o 0 Map.empty"
    unfolding d using parseOptions_shift0[of ?pre ?o Map.empty] unfolding l .
  also have "\<dots> = optionsOf its Map.empty" by (rule parseOptions_items[OF assms(4)])
  finally show ?thesis .
qed

lemma sample_layout:
  "sampleDiscover = sampleHeader @ [99, 130, 83, 99] @ encodeItems sampleItems @ OptEnd # []"
  "length sampleHeader = 236" "wfItems sampleItems"
  "optionsOf sampleItems Map.empty = [53 \<mapsto> [1], 93 \<mapsto> [0, 7]]"
proof -
  have e: "encodeItems sampleItems @ OptEnd # [] = [53, 1, 1, 0, 93, 2, 0, 7, 255]"
    by (simp add: sampleItems_def OptEnd_def)
  show "sampleDiscover = sampleHeader @ [99, 130, 83, 99] @ encodeItems sampleItems @ OptEnd # []"
    unfolding sampleDiscover_def sampleHeader_def e by (simp only: append_assoc)
  show "length sampleHeader = 236" by (simp add: sampleHeader_def)
  show "wfItems sampleItems" by (simp add: sampleItems_def)
  show "optionsOf sampleItems Map.empty = [53 \<mapsto> [1], 93 \<mapsto> [0, 7]]"
    by (simp add: sampleItems_def)
qed

lemma isTLV_encodeOption: "length v \<le> 255 \<Longrightarrow> isTLV k v (encodeOption k v)"
  by (simp add: isTLV_def encodeOption_def unat_of_nat)

lemma encodeAll_concat: "encodeAll opts ks = concat (map (\<lambda>k. encodeOption k (the (opts k))) ks)"
  by (simp add: encodeAll_def)

lemma sample_dom: "dom (Options samplePacket) = {53, 93}"
  by (auto simp add: samplePacket_def)

lemma sample_size: "optionsSize (Options samplePacket) [53, 93] = 7"
  by (simp add: samplePacket_def optionsSize_def)


subsection \<open>The lease allocator\<close>

lemma dupIP_id [simp]: "dupIP ip = ip"
  by (simp add: dupIP_def)

lemma To4_length: "To4 ip \<noteq> [] \<Longrightarrow> length (To4 ip) = 4"
  by (auto simp add: To4_def subslice_def split: if_splits)

lemma To4_four [simp]: "length ip = 4 \<Longrightarrow> To4 ip = ip"
  by (simp add: To4_def)

lemma To4_idem [simp]: "To4 (To4 ip) = To4 ip"
  by (cases "To4 ip = []") (simp_all add: To4_length)


lemma allocateIP_new:
  assumes "leases s (macString mac) = None" and "To4 (nextIP s) \<noteq> []"
  shows "allocateIP s mac
     = Inr (nextIP s,
            s\<lparr>leases := (leases s)(macString mac \<mapsto> \<lparr>IP = nextIP s, MAC = mac\<rparr>),
              nextIP := PutUint32 (Uint32 (To4 (nextIP s)) + 1)\<rparr>)"
  using assms To4_length[OF assms(2)] by (simp add: allocateIP_def Let_def)

lemma allocateIP_panic:
  assumes "leases s (macString mac) = None" and "To4 (nextIP s) = []"
  shows "allocateIP s mac = Inl IndexPanic"
  using assms by (simp add: allocateIP_def Let_def)





lemma and15: "(a :: byte) AND 15 = take_bit 4 a"
proof -
  have "(15 :: byte) = mask 4" by (simp add: mask_eq_exp_minus_1)
  then show ?thesis by (simp add: take_bit_eq_mask)
qed

lemma nibbles_eq:
  fixes a b :: byte
  assumes "drop_bit 4 a = drop_bit 4 b" and "a AND 15 = b AND 15"
  shows "a = b"
proof (rule bit_word_eqI)
  fix n assume n: "n < LENGTH(8)"
  show "bit a n = bit b n"
  proof (cases "n < 4")
    case True
    have "bit (take_bit 4 a) n = bit (take_bit 4 b) n" using assms(2) by (simp add: and15)
    then show ?thesis using True by (simp add: bit_take_bit_iff)
  next
    case False
    then obtain m where m: "n = 4 + m" by (metis le_add_diff_inverse not_less)
    have "bit (drop_bit 4 a) m = bit (drop_bit 4 b) m" using assms(1) by simp
    then show ?thesis unfolding m by (simp add: bit_drop_bit_eq)
  qed
qed

lemma nibble_bounds: "unat (drop_bit 4 (a :: byte)) < 16" "unat (a AND 15) < 16"
proof -
  have "unat a < 2 ^ 8" using unsigned_less[of a, where 'a = nat] by simp
  moreover have "unat (drop_bit 4 a) = unat a div 2 ^ 4"
    by (simp add: drop_bit_eq_div unat_div)
  ultimately show "unat (drop_bit 4 a) < 16"
    by simp
  have "take_bit 4 (unat a) < 2 ^ 4" by (rule take_bit_nat_less_exp)
  then have "unat (take_bit 4 a) < 16"
    by (simp add: unsigned_take_bit_eq)
  then show "unat (a AND 15) < 16" by (simp add: and15)
qed

lemma hexDigit_distinct: "distinct hexDigit" "length hexDigit = 16"
  by (simp_all add: hexDigit_def)

lemma hexByte_inj: "hexByte a = hexByte b \<Longrightarrow> a = b"
proof -
  assume h: "hexByte a = hexByte b"
  then have 1: "hexDigit ! unat (drop_bit 4 a) = hexDigit ! unat (drop_bit 4 b)"
    and 2: "hexDigit ! unat (a AND 15) = hexDigit ! unat (b AND 15)"
    by (simp_all add: hexByte_def)
  have ba: "unat (drop_bit 4 a) < length hexDigit" "unat (a AND 15) < length hexDigit"
    and bb: "unat (drop_bit 4 b) < length hexDigit" "unat (b AND 15) < length hexDigit"
    unfolding hexDigit_distinct(2) by (rule nibble_bounds)+
  have "unat (drop_bit 4 a) = unat (drop_bit 4 b)"
    using 1 unfolding nth_eq_iff_index_eq[OF hexDigit_distinct(1) ba(1) bb(1)] .
  then have hi: "drop_bit 4 a = drop_bit 4 b" by (rule unsigned_word_eqI)
  have "unat (a AND 15) = unat (b AND 15)"
    using 2 unfolding nth_eq_iff_index_eq[OF hexDigit_distinct(1) ba(2) bb(2)] .
  then have lo: "a AND 15 = b AND 15" by (rule unsigned_word_eqI)
  from hi lo show "a = b" by (rule nibbles_eq)
qed

lemma length_hexByte [simp]: "length (hexByte b) = 2"
  by (simp add: hexByte_def)

lemma macString_Cons:
  "macString (b # bs) = hexByte b @ (if bs = [] then [] else CHR '':'' # macString bs)"
  by (cases bs) simp_all

lemma macString_inj: "macString xs = macString ys \<Longrightarrow> xs = ys"
proof (induction xs arbitrary: ys)
  case Nil
  then show ?case by (cases ys) (simp_all add: macString_Cons hexByte_def)
next
  case (Cons a as)
  show ?case
  proof (cases ys)
    case Nil
    with Cons.prems show ?thesis by (simp add: macString_Cons hexByte_def)
  next
    case (Cons b bs)
    with Cons.prems
    have "hexByte a @ (if as = [] then [] else CHR '':'' # macString as)
        = hexByte b @ (if bs = [] then [] else CHR '':'' # macString bs)"
      by (simp only: macString_Cons)
    then have h: "hexByte a = hexByte b"
      and t: "(if as = [] then [] else CHR '':'' # macString as)
            = (if bs = [] then [] else CHR '':'' # macString bs)"
      by simp_all
    from h have "a = b" by (rule hexByte_inj)
    moreover have "as = bs"
    proof (cases "as = []")
      case True
      with t show ?thesis by (simp split: if_splits)
    next
      case False
      with t have "bs \<noteq> []" "macString as = macString bs" by (simp_all split: if_splits)
      then show ?thesis using Cons.IH by blast
    qed
    ultimately show ?thesis using Cons by simp
  qed
qed

lemma ipNumber_PutUint32 [simp]: "ipNumber (PutUint32 w) = unat w"
  by (simp add: ipNumber_def Uint32_PutUint32)





lemma rep10: "replicate 10 (0 :: byte) = [0, 0, 0, 0, 0, 0, 0, 0, 0, 0]"
  by (simp add: numeral_eq_Suc)

lemma To4_mapped: "To4 [0, 0, 0, 0, 0, 0, 0, 0, 0, 0, 255, 255, a, b, c, d] = [a, b, c, d]"
  by (simp add: To4_def rep10 subslice_def)

lemma ipNumber_100: "ipNumber [0, 0, 0, 0, 0, 0, 0, 0, 0, 0, 255, 255, 10, 0, 0, 100] = 167772260"
  by (simp add: ipNumber_def To4_mapped Uint32_def)


lemma two_allocations:
  assumes "To4 start \<noteq> []" and "m1 \<noteq> m2"
  shows "allocateAll (NewServer (cfg\<lparr>RangeStart := start\<rparr>)) [m1, m2]
    = Inr ([start, PutUint32 (Uint32 (To4 start) + 1)],
           \<lparr>config = cfg\<lparr>RangeStart := start\<rparr>,
            leases = [macString m1 \<mapsto> \<lparr>IP = start, MAC = m1\<rparr>,
                      macString m2 \<mapsto> \<lparr>IP = PutUint32 (Uint32 (To4 start) + 1), MAC = m2\<rparr>],
            nextIP = PutUint32 (Uint32 (To4 start) + 1 + 1)\<rparr>)"
proof -
  let ?s0 = "NewServer (cfg\<lparr>RangeStart := start\<rparr>)"
  let ?w = "Uint32 (To4 start)"
  let ?s1 = "?s0\<lparr>leases := (leases ?s0)(macString m1 \<mapsto> \<lparr>IP = nextIP ?s0, MAC = m1\<rparr>),
              nextIP := PutUint32 (Uint32 (To4 (nextIP ?s0)) + 1)\<rparr>"
  have n0: "nextIP ?s0 = start" "leases ?s0 = Map.empty" by (simp_all add: NewServer_def)
  have a1: "allocateIP ?s0 m1 = Inr (nextIP ?s0, ?s1)"
    using assms(1) by (intro allocateIP_new) (simp_all add: n0)
  have ne: "macString m2 \<noteq> macString m1" using assms(2) macString_inj by blast
  let ?s2 = "?s1\<lparr>leases := (leases ?s1)(macString m2 \<mapsto> \<lparr>IP = nextIP ?s1, MAC = m2\<rparr>),
              nextIP := PutUint32 (Uint32 (To4 (nextIP ?s1)) + 1)\<rparr>"
  have a2: "allocateIP ?s1 m2 = Inr (nextIP ?s1, ?s2)"
    using ne by (intro allocateIP_new) (simp_all add: n0 PutUint32_def)
  have "allocateAll ?s0 [m1, m2] = Inr ([nextIP ?s0, nextIP ?s1], ?s2)"
    using a1 a2 by simp
  then show ?thesis
    by (simp add: n0 NewServer_def Uint32_PutUint32)
qed


subsection \<open>The responder\<close>








































section \<open>Claims about the TFTP transfer engine\<close>

text \<open>
  Claim C1 says that a block left unacknowledged on five consecutive attempts ends the
  transfer. The source does not: the retry loop falls through to the size test and the
  next block. Here a 600-byte file is requested and no datagram ever arrives: block 1
  is written five times, and then block 2 is written five times.
\<close>

theorem C1_retries_exhausted_next_block_sent:
  "handleRead ''/srv/tftp'' ''boot''
     \<lparr>readFile = (\<lambda>p. if p = ''/srv/tftp/boot'' then Some (replicate 600 7) else None),
      dialOk = True, responses = []\<rparr> 2
   = (FileRead ''/srv/tftp/boot'' #
        map Sent (replicate 5 (dataPacket 1 (replicate 512 7)) @
                  replicate 5 (dataPacket 2 (replicate 88 7))),
      Complete)"
proof -
  let ?data = "replicate 600 (7 :: byte)"
  have p: "Join ''/srv/tftp'' (TrimPrefix (Clean ''boot'') ''/'') = ''/srv/tftp/boot''"
    by (simp add: Join_def TrimPrefix_def Clean_def cleanStep_def Let_def)
  have c: "\<not> Contains (TrimPrefix (Clean ''boot'') ''/'') ''..''"
    by (simp add: TrimPrefix_def Clean_def cleanStep_def Let_def)
  have r2: "retryLoop 0 (dataPacket 2 (take 512 (drop 512 ?data))) 2 []
      = (replicate 5 (dataPacket 2 (replicate 88 7)), [])"
    by (simp add: retryLoop_timeouts)
  have "transferLoop (Suc 0) ?data 2 512 [] = (replicate 5 (dataPacket 2 (replicate 88 7)), Complete)"
    by (rule transferLoop_last[OF _ _ r2]) simp_all
  then have l: "transferLoop (Suc 0) ?data (1 + 1) (unat (1 :: 16 word) * 512) []
      = (replicate 5 (dataPacket 2 (replicate 88 7)), Complete)"
    by simp
  have r1: "retryLoop 0 (dataPacket 1 (take 512 (drop 0 ?data))) 1 []
      = (replicate 5 (dataPacket 1 (replicate 512 7)), [])"
    by (simp add: retryLoop_timeouts)
  have "transferLoop (Suc (Suc 0)) ?data 1 0 []
      = (replicate 5 (dataPacket 1 (replicate 512 7)) @ replicate 5 (dataPacket 2 (replicate 88 7)), Complete)"
    by (rule transferLoop_full[OF _ _ r1 l]) simp_all
  then have t: "transferLoop 2 ?data 1 0 []
      = (replicate 5 (dataPacket 1 (replicate 512 7)) @ replicate 5 (dataPacket 2 (replicate 88 7)), Complete)"
    by (simp only: numeral_2_eq_2)
  show ?thesis
    unfolding handleRead_def Let_def p using c by (simp only: t if_False tftpEnv.simps if_True option.case split_conv simp_thms)
qed

text \<open>
  Claim C3, as amended. For a file of \<open>S < 512 * 65535\<close> bytes that the handler can read,
  the packets written are, up to retransmissions of the same packet, exactly
  \<open>S div 512 + 1\<close> DATA packets: the \<open>k\<close>-th carries block number \<open>k\<close> and the (at most)
  512 bytes from offset \<open>512 * (k - 1)\<close>, the numbers are \<open>1, 2, ..., S div 512 + 1\<close>,
  and the handler returns after the last one, which is short. The count is
  \<open>ceil (S / 512)\<close>, plus one when \<open>S\<close> is a multiple of 512, the empty file included.
\<close>

theorem C3_blocks:
  assumes "length data < 512 * 65535"
    and "\<not> Contains (TrimPrefix (Clean filename) ''/'') ''..''"
    and "readFile env (Join root (TrimPrefix (Clean filename) ''/'')) = Some data"
    and "dialOk env"
    and "length data div 512 < fuel"
  shows "\<exists>sent.
     handleRead root filename env fuel
       = (FileRead (Join root (TrimPrefix (Clean filename) ''/'')) # map Sent sent, Complete)
     \<and> remdups_adj sent = map (blockOf data) [0..<length data div 512 + 1]
     \<and> map blockNumber (remdups_adj sent) = [1..<length data div 512 + 2]
     \<and> length (remdups_adj sent)
         = (length data + 511) div 512 + (if length data mod 512 = 0 then 1 else 0)"
proof -
  let ?N = "length data div 512"
  have N: "?N < 65535" using assms(1) by simp
  then have N': "?N < 65536" by simp
  obtain sent where t: "transferLoop fuel data (of_nat (0 + 1)) (0 * 512) (responses env) = (sent, Complete)"
    and s: "remdups_adj sent = map (blockOf data) [0..<?N + 1]"
    using transferLoop_blocks[OF N', of 0 fuel "responses env"] assms(5) by auto
  from t have t': "transferLoop fuel data 1 0 (responses env) = (sent, Complete)" by simp
  have h: "handleRead root filename env fuel
       = (FileRead (Join root (TrimPrefix (Clean filename) ''/'')) # map Sent sent, Complete)"
    unfolding handleRead_def Let_def using assms(2,3,4) by (simp add: t')
  have n: "map blockNumber (remdups_adj sent) = [1..<?N + 2]"
    unfolding s using blockNumbers_upto[of "?N + 1" data] N by simp
  have c: "length (remdups_adj sent)
         = (length data + 511) div 512 + (if length data mod 512 = 0 then 1 else 0)"
    unfolding s using block_count[of "length data"] by simp
  from h s n c show ?thesis by blast
qed


theorem C3_blocks_witness:
  "length (replicate 513 (9 :: byte)) < 512 * 65535 \<and>
   (\<exists>sent.
     handleRead ''/srv/tftp'' ''/boot''
        \<lparr>readFile = (\<lambda>p. if p = ''/srv/tftp/boot'' then Some (replicate 513 9) else None),
         dialOk = True, responses = [Datagram [0, 4, 0, 1]]\<rparr> 2
       = (FileRead ''/srv/tftp/boot'' # map Sent sent, Complete)
     \<and> remdups_adj sent = [dataPacket 1 (replicate 512 9), dataPacket 2 [9]]
     \<and> map blockNumber (remdups_adj sent) = [1, 2])"
proof -
  let ?env = "\<lparr>readFile = (\<lambda>p. if p = ''/srv/tftp/boot'' then Some (replicate 513 (9 :: byte)) else None),
         dialOk = True, responses = [Datagram [0, 4, 0, 1]]\<rparr>"
  have p: "Join ''/srv/tftp'' (TrimPrefix (Clean ''/boot'') ''/'') = ''/srv/tftp/boot''"
    by (simp add: Join_def TrimPrefix_def Clean_def cleanStep_def Let_def)
  have c: "\<not> Contains (TrimPrefix (Clean ''/boot'') ''/'') ''..''"
    by (simp add: TrimPrefix_def Clean_def cleanStep_def Let_def)
  have l: "length (replicate 513 (9 :: byte)) < 512 * 65535" by simp
  have r: "readFile ?env (Join ''/srv/tftp'' (TrimPrefix (Clean ''/boot'') ''/'')) = Some (replicate 513 9)"
    unfolding p by simp
  have d: "dialOk ?env" by simp
  have f: "length (replicate 513 (9 :: byte)) div 512 < 2" by simp
  have u: "[0..<length (replicate 513 (9 :: byte)) div 512 + 1] = [0, 1]"
    by (simp add: upt_rec)
  have u2: "[1..<length (replicate 513 (9 :: byte)) div 512 + 2] = [1, 2]"
    by (simp add: upt_rec)
  from C3_blocks[OF l c r d f] obtain sent where
    a: "handleRead ''/srv/tftp'' ''/boot'' ?env 2
          = (FileRead (Join ''/srv/tftp'' (TrimPrefix (Clean ''/boot'') ''/'')) # map Sent sent, Complete)"
    and b: "remdups_adj sent = map (blockOf (replicate 513 9)) [0..<length (replicate 513 (9 :: byte)) div 512 + 1]"
    and n: "map blockNumber (remdups_adj sent) = [1..<length (replicate 513 (9 :: byte)) div 512 + 2]"
    by (elim exE conjE)
  have b': "remdups_adj sent = [dataPacket 1 (replicate 512 9), dataPacket 2 [9]]"
    using b unfolding u by (simp add: blockOf_def)
  have n': "map blockNumber (remdups_adj sent) = [1, 2]"
    using n unfolding u2 .
  show ?thesis
    using l a[unfolded p] b' n' by (intro conjI exI[of _ sent])
qed

text \<open>
  Claim C3 as stated fails for the empty file: the claim counts \<open>ceil (0 / 512) = 0\<close>
  blocks and no additional one (0 is not a nonzero multiple of 512), and the handler
  writes one DATA packet, block 1 with no payload.
\<close>

theorem C3_counterexample:
  "handleRead ''/srv/tftp'' ''empty''
      \<lparr>readFile = (\<lambda>p. if p = ''/srv/tftp/empty'' then Some [] else None),
       dialOk = True, responses = [Datagram [0, 4, 0, 1]]\<rparr> 1
     = ([FileRead ''/srv/tftp/empty'', Sent (dataPacket 1 [])], Complete)
   \<and> claimedBlocks (length ([] :: byte list)) = 0"
proof -
  have p: "Join ''/srv/tftp'' (TrimPrefix (Clean ''empty'') ''/'') = ''/srv/tftp/empty''"
    by (simp add: Join_def TrimPrefix_def Clean_def cleanStep_def Let_def)
  have c: "\<not> Contains (TrimPrefix (Clean ''empty'') ''/'') ''..''"
    by (simp add: TrimPrefix_def Clean_def cleanStep_def Let_def)
  have a: "ackFor 1 (Datagram [0, 4, 0, 1])"
    by (simp add: ackFor_def copyBytes_def subslice_def Uint16_def opACK_def)
  have r: "retryLoop 0 (dataPacket 1 (take 512 (drop 0 []))) 1 [Datagram [0, 4, 0, 1]]
      = ([dataPacket 1 []], [])"
    using a by (simp add: retryLoop.simps[of 0] nextResponse_def)
  have "transferLoop (Suc 0) [] 1 0 [Datagram [0, 4, 0, 1]] = ([dataPacket 1 []], Complete)"
    by (rule transferLoop_last[OF _ _ r]) simp_all
  then have t: "transferLoop 1 [] 1 0 [Datagram [0, 4, 0, 1]] = ([dataPacket 1 []], Complete)"
    by simp
  have "handleRead ''/srv/tftp'' ''empty''
      \<lparr>readFile = (\<lambda>p. if p = ''/srv/tftp/empty'' then Some [] else None),
       dialOk = True, responses = [Datagram [0, 4, 0, 1]]\<rparr> 1
     = ([FileRead ''/srv/tftp/empty'', Sent (dataPacket 1 [])], Complete)"
    unfolding handleRead_def Let_def p using c
    by (simp only: t if_False tftpEnv.simps if_True option.case split_conv simp_thms list.map)
  then show ?thesis by (simp add: claimedBlocks_def)
qed

text \<open>
  Claim C8. A read request whose filename, after \<open>Clean\<close> and after stripping a leading
  separator, has a parent-directory segment is abandoned before any file access: the
  handler reads no file and writes no packet (neither DATA nor ERROR), whatever the
  root, the file system and the network do.
\<close>

theorem C8_traversal_rejected:
  "hasParentSegment (TrimPrefix (Clean filename) ''/'') \<Longrightarrow>
     handleRead root filename env fuel = ([], Rejected)"
  by (simp add: handleRead_def Let_def parentSegment_Contains)

theorem C8_traversal_rejected_witness:
  "hasParentSegment (TrimPrefix (Clean ''../secret'') ''/'') \<and>
   handleRead ''/srv/tftp'' ''../secret''
     \<lparr>readFile = (\<lambda>p. Some [1, 2, 3]), dialOk = True, responses = []\<rparr> 7 = ([], Rejected)"
proof -
  have h: "hasParentSegment (TrimPrefix (Clean ''../secret'') ''/'')"
    by (simp add: hasParentSegment_def TrimPrefix_def Clean_def cleanStep_def Let_def)
  from h C8_traversal_rejected[OF h] show ?thesis by simp
qed

text \<open>
  Claim C10, as amended. The block counter is a 16-bit value and the next offset is
  \<open>unat (block - 1) * 512\<close>. For a file of at least \<open>512 * 65536\<close> bytes every chunk is
  full, so the loop never returns and goes on writing packets; every packet it writes
  carries the 512 bytes at an offset \<open>unat (b - 1) * 512\<close> below \<open>512 * 65536\<close>, so no
  byte from offset \<open>512 * 65536\<close> on is ever sent. Up to retransmissions of the same
  packet, the \<open>k\<close>-th packet written (counting from 0) has block number
  \<open>(k + 1) mod 65536\<close> and carries the 512 bytes from offset \<open>512 * (k mod 65536)\<close>:
  after block 65535 comes block 0 with the bytes at offset \<open>512 * 65535\<close>, then block 1
  with the bytes at offset 0, and so on around the counter.
\<close>

theorem C10_wrap:
  assumes "33554432 \<le> length data"
  shows "snd (transferLoop fuel data 1 0 env) = StillSending
    \<and> fuel \<le> length (fst (transferLoop fuel data 1 0 env))
    \<and> (\<forall>pkt \<in> set (fst (transferLoop fuel data 1 0 env)).
          \<exists>b. pkt = dataPacket b (take 512 (drop (unat (b - 1) * 512) data))
             \<and> unat (b - 1) * 512 + 512 \<le> 33554432)
    \<and> remdups_adj (fst (transferLoop fuel data 1 0 env)) = map (wrapBlock data) [0..<fuel]
    \<and> map blockNumber (remdups_adj (fst (transferLoop fuel data 1 0 env)))
         = map (\<lambda>k. (k + 1) mod 65536) [0..<fuel]
    \<and> map payload (remdups_adj (fst (transferLoop fuel data 1 0 env)))
         = map (\<lambda>k. take 512 (drop ((k mod 65536) * 512) data)) [0..<fuel]"
proof -
  have z: "unat ((1 :: 16 word) - 1) * 512 = 0" by simp
  from transferLoop_cycle[OF assms, of fuel 0 env]
  obtain sent where c: "transferLoop fuel data 1 0 env = (sent, StillSending)"
    and s: "remdups_adj sent = map (wrapBlock data) [0..<fuel]" by auto
  have 1: "snd (transferLoop fuel data 1 0 env) = StillSending" using c by simp
  have 2: "fuel \<le> length (fst (transferLoop fuel data 1 0 env))"
    using transferLoop_progress[OF assms, of fuel 1 env] unfolding z .
  have 3: "\<forall>pkt \<in> set (fst (transferLoop fuel data 1 0 env)).
          \<exists>b. pkt = dataPacket b (take 512 (drop (unat (b - 1) * 512) data))
             \<and> unat (b - 1) * 512 + 512 \<le> 33554432"
    using transferLoop_packets[of _ fuel data 1 env] unat16_bound unfolding z by blast
  have 4: "remdups_adj (fst (transferLoop fuel data 1 0 env)) = map (wrapBlock data) [0..<fuel]"
    using c s by simp
  have 5: "map blockNumber (remdups_adj (fst (transferLoop fuel data 1 0 env)))
         = map (\<lambda>k. (k + 1) mod 65536) [0..<fuel]"
    unfolding 4 by (simp add: blockNumber_wrapBlock)
  have 6: "map payload (remdups_adj (fst (transferLoop fuel data 1 0 env)))
         = map (\<lambda>k. take 512 (drop ((k mod 65536) * 512) data)) [0..<fuel]"
    unfolding 4 by (simp add: payload_wrapBlock)
  from 1 2 3 4 5 6 show ?thesis by (intro conjI)
qed

theorem C10_wrap_witness:
  "33554432 \<le> length (replicate 33554432 (0 :: byte))
   \<and> snd (transferLoop 65537 (replicate 33554432 0) 1 0 []) = StillSending
   \<and> 65537 \<le> length (fst (transferLoop 65537 (replicate 33554432 0) 1 0 []))
   \<and> map blockNumber (remdups_adj (fst (transferLoop 65537 (replicate 33554432 0) 1 0 []))) ! 65534 = 65535
   \<and> map blockNumber (remdups_adj (fst (transferLoop 65537 (replicate 33554432 0) 1 0 []))) ! 65535 = 0
   \<and> map blockNumber (remdups_adj (fst (transferLoop 65537 (replicate 33554432 0) 1 0 []))) ! 65536 = 1
   \<and> remdups_adj (fst (transferLoop 65537 (replicate 33554432 0) 1 0 [])) ! 65535
       = dataPacket 0 (take 512 (drop (65535 * 512) (replicate 33554432 0)))
   \<and> remdups_adj (fst (transferLoop 65537 (replicate 33554432 0) 1 0 [])) ! 65536
       = dataPacket 1 (take 512 (drop 0 (replicate 33554432 0)))"
proof -
  let ?data = "replicate 33554432 (0 :: byte)"
  have l: "33554432 \<le> length ?data" by simp
  note T = C10_wrap[OF l, of 65537 "[]"]
  have n: "\<And>f :: nat \<Rightarrow> nat. \<And>i. i < 65537 \<Longrightarrow> map f [0..<65537] ! i = f i"
    using nth_map_upt[of _ 65537 0] by simp
  have n': "\<And>f :: nat \<Rightarrow> byte list. \<And>i. i < 65537 \<Longrightarrow> map f [0..<65537] ! i = f i"
    using nth_map_upt[of _ 65537 0] by simp
  have w: "(65536 :: 16 word) = 0" by (simp add: word_uint_eq_iff)
  have a: "wrapBlock ?data 65535 = dataPacket 0 (take 512 (drop (65535 * 512) ?data))"
  proof -
    have "wrapBlock ?data 65535 = dataPacket 65536 (take 512 (drop (65535 * 512) ?data))"
      unfolding wrapBlock_def by simp
    then show ?thesis by (simp only: w)
  qed
  have b: "wrapBlock ?data 65536 = dataPacket 1 (take 512 (drop 0 ?data))"
  proof -
    have "wrapBlock ?data 65536 = dataPacket 65537 (take 512 (drop 0 ?data))"
      unfolding wrapBlock_def by simp
    moreover have "(65537 :: 16 word) = 1" by (simp add: word_uint_eq_iff)
    ultimately show ?thesis by (simp only:)
  qed
  have 1: "snd (transferLoop 65537 ?data 1 0 []) = StillSending" using T by (elim conjE)
  have 2: "65537 \<le> length (fst (transferLoop 65537 ?data 1 0 []))" using T by (elim conjE)
  have 4: "remdups_adj (fst (transferLoop 65537 ?data 1 0 [])) = map (wrapBlock ?data) [0..<65537]"
    using T by (elim conjE)
  have 5: "map blockNumber (remdups_adj (fst (transferLoop 65537 ?data 1 0 [])))
         = map (\<lambda>k. (k + 1) mod 65536) [0..<65537]"
    using T by (elim conjE)
  have c1: "map blockNumber (remdups_adj (fst (transferLoop 65537 ?data 1 0 []))) ! 65534 = 65535"
    unfolding 5 by (subst n) simp_all
  have c2: "map blockNumber (remdups_adj (fst (transferLoop 65537 ?data 1 0 []))) ! 65535 = 0"
    unfolding 5 by (subst n) simp_all
  have c3: "map blockNumber (remdups_adj (fst (transferLoop 65537 ?data 1 0 []))) ! 65536 = 1"
    unfolding 5 by (subst n) simp_all
  have c4: "remdups_adj (fst (transferLoop 65537 ?data 1 0 [])) ! 65535
       = dataPacket 0 (take 512 (drop (65535 * 512) ?data))"
    unfolding 4 by (subst n', simp, rule a)
  have c5: "remdups_adj (fst (transferLoop 65537 ?data 1 0 [])) ! 65536
       = dataPacket 1 (take 512 (drop 0 ?data))"
    unfolding 4 by (subst n', simp, rule b)
  from l 1 2 c1 c2 c3 c4 c5 show ?thesis by (intro conjI)
qed


text \<open>
  Claim C10 as stated fails for a file of \<open>512 * 65535 + 2\<close> bytes: after block 65535
  the counter wraps to 0, but the offset is \<open>unat (0 - 1) * 512 = 512 * 65535\<close>, so
  block 0 carries the last two bytes of the file (offsets \<open>512 * 65535\<close> and
  \<open>512 * 65535 + 1\<close>), is short, and ends the transfer.
\<close>

theorem C10_counterexample:
  "snd (transferLoop 65536 (replicate 33553920 0 @ [1, 2]) 1 0 []) = Complete
   \<and> last (fst (transferLoop 65536 (replicate 33553920 0 @ [1, 2]) 1 0 [])) = dataPacket 0 [1, 2]
   \<and> drop (512 * 65535) (replicate 33553920 0 @ [1, 2 :: byte]) = [1, 2]
   \<and> 512 * 65535 + 1 \<le> length (replicate 33553920 0 @ [1, 2 :: byte])"
proof -
  let ?data = "replicate 33553920 0 @ [1, 2 :: byte]"
  have N: "length ?data div 512 = 65535" by simp
  have "length ?data div 512 < 65536" by simp
  from transferLoop_blocks[OF this, of 0 65536 "[]"]
  obtain sent where t: "transferLoop 65536 ?data (of_nat (0 + 1)) (0 * 512) [] = (sent, Complete)"
    and s: "remdups_adj sent = map (blockOf ?data) [0..<length ?data div 512 + 1]"
    unfolding N by auto
  from t have t': "transferLoop 65536 ?data 1 0 [] = (sent, Complete)" by simp
  have "last sent = last (remdups_adj sent)" by simp
  also have "\<dots> = blockOf ?data 65535"
    unfolding s N by (simp add: last_map)
  also have "\<dots> = dataPacket 0 [1, 2]"
  proof -
    have w: "(65536 :: 16 word) = 0" by (simp add: word_uint_eq_iff)
    have "blockOf ?data 65535 = dataPacket 65536 [1, 2]" by (simp add: blockOf_def)
    then show ?thesis by (simp only: w)
  qed
  finally show ?thesis using t' by simp
qed

section \<open>Claims about the packet codec\<close>

text \<open>
  Claim C4. Decoding a packet (of at least 240 bytes, so that decoding succeeds) and
  encoding the result, in any order of the option map, preserves every fixed header
  field and the complete option map, provided the options, each with its tag and
  length byte, and the terminator fit the 576-byte buffer of the encoder: the bytes
  written decode to the same packet; their first 34 bytes (opcode, hardware type and
  length, hops, transaction id, seconds, flags, the four addresses, the 6-byte hardware
  address) and their bytes 44 to 235 (server name, boot filename) are those of the input
  (bytes 34 to 43 are written as zeros, the cookie follows); the options written are
  those of the decoded map, each once, in the order given; and when the option field of
  the input is well formed (pads and options after the cookie, then the terminator),
  the decoded map is the map that field stands for.
\<close>

theorem C4_roundtrip:
  assumes "parsePacket d = Inr p"
    and "distinct order" and "set order = dom (Options p)"
    and "240 + optionsSize (Options p) order < 576"
  shows "parsePacket (serializePacket p order) = Inr p
    \<and> take 34 (serializePacket p order) = take 34 d
    \<and> subslice (serializePacket p order) 34 44 = replicate 10 0
    \<and> subslice (serializePacket p order) 44 236 = subslice d 44 236
    \<and> drop 236 (serializePacket p order)
        = [99, 130, 83, 99] @ encodeAll (Options p) order @ [OptEnd]
    \<and> (\<forall>hdr its rest.
          d = hdr @ [99, 130, 83, 99] @ encodeItems its @ OptEnd # rest
          \<and> length hdr = 236 \<and> wfItems its \<longrightarrow> Options p = optionsOf its Map.empty)"
proof -
  note sh = parsePacket_shape[OF assms(1)]
  have len: "240 \<le> length d" using assms(1) by (auto simp add: parsePacket_def split: if_splits)
  have w: "written (Options p) order 240 576 = order"
    using assms(3,4) by (intro written_all) simp_all
  have k: "\<forall>k \<in> set order. \<exists>v. Options p k = Some v \<and> k \<noteq> 0 \<and> k \<noteq> OptEnd \<and> length v \<le> 255"
    using sh(8) assms(3) unfolding wfOptions_def by blast
  have o: "parseOptions (encodeAll (Options p) order @ [OptEnd]) 0 Map.empty = Options p"
    unfolding parseOptions_encodeAll[OF k] using assms(3) by (auto simp add: fun_eq_iff domIff)
  have "parsePacket (fixedHeader p @ encodeAll (Options p) order @ [OptEnd])
      = Inr (p\<lparr>Options := parseOptions (encodeAll (Options p) order @ [OptEnd]) 0 Map.empty\<rparr>)"
    by (rule parse_fixedHeader[OF sh(1-7)]) simp
  then have 1: "parsePacket (serializePacket p order) = Inr p"
    unfolding serializePacket_eq w o by simp
  let ?E = "encodeAll (Options p) order @ [OptEnd]"
  have e: "serializePacket p order
      = take 34 d @ replicate 10 0 @ subslice d 44 236 @ [99, 130, 83, 99] @ ?E"
    unfolding serializePacket_eq w parse_header_bytes[OF assms(1)] by simp
  have l34: "length (take 34 d) = 34" using len by simp
  have l192: "length (subslice d 44 236) = 192" using len by (simp add: length_subslice)
  have 2: "take 34 (serializePacket p order) = take 34 d"
    unfolding e using l34 by simp
  have 3: "subslice (serializePacket p order) 34 44 = replicate 10 0"
    unfolding e subslice_def using l34 by simp
  have 4: "subslice (serializePacket p order) 44 236 = subslice d 44 236"
  proof -
    have "serializePacket p order = (take 34 d @ replicate 10 0) @ subslice d 44 236 @ [99, 130, 83, 99] @ ?E"
      unfolding e by simp
    moreover have "length (take 34 d @ replicate 10 0) = 44" using l34 by simp
    ultimately show ?thesis using l192 by (simp add: subslice_def[of _ 44 236])
  qed
  have 5: "drop 236 (serializePacket p order) = [99, 130, 83, 99] @ ?E"
  proof -
    have x: "serializePacket p order = (take 34 d @ replicate 10 0 @ subslice d 44 236) @ [99, 130, 83, 99] @ ?E"
      unfolding e by simp
    have y: "length (take 34 d @ replicate 10 0 @ subslice d 44 236) = 236"
      using l34 l192 by simp
    show ?thesis unfolding x by (rule drop_exact[OF y])
  qed
  have 6: "\<forall>hdr its rest.
          d = hdr @ [99, 130, 83, 99] @ encodeItems its @ OptEnd # rest
          \<and> length hdr = 236 \<and> wfItems its \<longrightarrow> Options p = optionsOf its Map.empty"
    using parse_items[OF assms(1)] by blast
  from 1 2 3 4 5 6 show ?thesis by (intro conjI)
qed



theorem C4_roundtrip_witness:
  "parsePacket sampleDiscover = Inr samplePacket
   \<and> distinct [53, 93 :: byte]
   \<and> set [53, 93] = dom (Options samplePacket)
   \<and> 240 + optionsSize (Options samplePacket) [53, 93] < 576
   \<and> sampleDiscover = sampleHeader @ [99, 130, 83, 99] @ encodeItems sampleItems @ OptEnd # []
   \<and> length sampleHeader = 236 \<and> wfItems sampleItems
   \<and> parsePacket (serializePacket samplePacket [53, 93]) = Inr samplePacket
   \<and> take 34 (serializePacket samplePacket [53, 93]) = take 34 sampleDiscover
   \<and> subslice (serializePacket samplePacket [53, 93]) 44 236 = subslice sampleDiscover 44 236
   \<and> Options samplePacket = [53 \<mapsto> [1], 93 \<mapsto> [0, 7]]"
proof -
  have d: "distinct [53, 93 :: byte]" by simp
  have s: "set [53, 93] = dom (Options samplePacket)" by (simp add: sample_dom)
  have f: "240 + optionsSize (Options samplePacket) [53, 93] < 576" by (simp add: sample_size)
  note T = C4_roundtrip[OF parse_sampleDiscover d s f]
  have 1: "parsePacket (serializePacket samplePacket [53, 93]) = Inr samplePacket"
    using T by (elim conjE)
  have 2: "take 34 (serializePacket samplePacket [53, 93]) = take 34 sampleDiscover"
    using T by (elim conjE)
  have 4: "subslice (serializePacket samplePacket [53, 93]) 44 236 = subslice sampleDiscover 44 236"
    using T by (elim conjE)
  have 6: "\<forall>hdr its rest.
          sampleDiscover = hdr @ [99, 130, 83, 99] @ encodeItems its @ OptEnd # rest
          \<and> length hdr = 236 \<and> wfItems its \<longrightarrow> Options samplePacket = optionsOf its Map.empty"
    using T by (elim conjE)
  have "Options samplePacket = optionsOf sampleItems Map.empty"
    by (rule 6[rule_format, of sampleHeader sampleItems "[]"]) (intro conjI sample_layout(1,2,3))
  then have 7: "Options samplePacket = [53 \<mapsto> [1], 93 \<mapsto> [0, 7]]"
    by (simp only: sample_layout(4))
  from parse_sampleDiscover d s f sample_layout(1,2,3) 1 2 4 7 show ?thesis by (intro conjI)
qed




text \<open>
  Claim C9, as amended. The encoder writes the fixed header and the cookie, then the
  options in map order up to the first one that does not fit the 576-byte buffer
  (that one and all later ones are left out), then the terminator 255; it returns
  bytes only and reports nothing. When all options fit and no value is longer than 255
  bytes, every option is written as tag, length, value (the length byte is the length
  of the value), followed by the terminator.
\<close>

theorem C9_encoding:
  "serializePacket p order
     = fixedHeader p @ encodeAll (Options p) (written (Options p) order 240 576) @ [OptEnd]
   \<and> (set order \<subseteq> dom (Options p) \<and> 240 + optionsSize (Options p) order < 576
        \<longrightarrow> written (Options p) order 240 576 = order)
   \<and> (set order \<subseteq> dom (Options p) \<and> 240 + optionsSize (Options p) order < 576
        \<and> (\<forall>k \<in> set order. length (the (Options p k)) \<le> 255)
        \<longrightarrow> (\<exists>segs. serializePacket p order = fixedHeader p @ concat segs @ [OptEnd]
               \<and> list_all2 (\<lambda>k seg. isTLV k (the (Options p k)) seg) order segs))"
proof (intro conjI impI)
  show "serializePacket p order
     = fixedHeader p @ encodeAll (Options p) (written (Options p) order 240 576) @ [OptEnd]"
    by (rule serializePacket_eq)
next
  assume "set order \<subseteq> dom (Options p) \<and> 240 + optionsSize (Options p) order < 576"
  then show "written (Options p) order 240 576 = order"
    using written_all[of order "Options p" 240 576] by blast
next
  assume h: "set order \<subseteq> dom (Options p) \<and> 240 + optionsSize (Options p) order < 576
        \<and> (\<forall>k \<in> set order. length (the (Options p k)) \<le> 255)"
  let ?segs = "map (\<lambda>k. encodeOption k (the (Options p k))) order"
  have w: "written (Options p) order 240 576 = order"
    using h written_all[of order "Options p" 240 576] by blast
  have 1: "serializePacket p order = fixedHeader p @ concat ?segs @ [OptEnd]"
    unfolding serializePacket_eq w encodeAll_concat ..
  have 2: "list_all2 (\<lambda>k seg. isTLV k (the (Options p k)) seg) order ?segs"
    using h by (simp add: list_all2_map2 list_all2_same isTLV_encodeOption)
  from 1 2 show "\<exists>segs. serializePacket p order = fixedHeader p @ concat segs @ [OptEnd]
               \<and> list_all2 (\<lambda>k seg. isTLV k (the (Options p k)) seg) order segs"
    by blast
qed


theorem C9_encoding_witness:
  "set [53, 93] \<subseteq> dom (Options samplePacket)
   \<and> 240 + optionsSize (Options samplePacket) [53, 93] < 576
   \<and> length (the (Options samplePacket 53)) \<le> 255
   \<and> length (the (Options samplePacket 93)) \<le> 255
   \<and> serializePacket samplePacket [53, 93]
       = fixedHeader samplePacket @ [53, 1, 1, 93, 2, 0, 7] @ [OptEnd]
   \<and> (\<exists>segs. serializePacket samplePacket [53, 93] = fixedHeader samplePacket @ concat segs @ [OptEnd]
         \<and> list_all2 (\<lambda>k seg. isTLV k (the (Options samplePacket k)) seg) [53, 93] segs)"
proof -
  have s: "set [53, 93] \<subseteq> dom (Options samplePacket)" by (simp add: sample_dom)
  have f: "240 + optionsSize (Options samplePacket) [53, 93] < 576" by (simp add: sample_size)
  have l: "length (the (Options samplePacket 53)) \<le> 255" "length (the (Options samplePacket 93)) \<le> 255"
    by (simp_all add: samplePacket_def)
  have e: "encodeAll (Options samplePacket) [53, 93] = [53, 1, 1, 93, 2, 0, 7]"
    by (simp add: samplePacket_def encodeOption_def)
  have h: "set [53, 93] \<subseteq> dom (Options samplePacket)
      \<and> 240 + optionsSize (Options samplePacket) [53, 93] < 576
      \<and> (\<forall>k \<in> set [53, 93]. length (the (Options samplePacket k)) \<le> 255)"
    using s f l by simp
  note T = C9_encoding[of samplePacket "[53, 93]"]
  have w: "written (Options samplePacket) [53, 93] 240 576 = [53, 93]"
    by (rule T[THEN conjunct2, THEN conjunct1, THEN mp, OF conjI[OF s f]])
  have 1: "serializePacket samplePacket [53, 93]
      = fixedHeader samplePacket @ [53, 1, 1, 93, 2, 0, 7] @ [OptEnd]"
    using T[THEN conjunct1] unfolding w e .
  have 2: "\<exists>segs. serializePacket samplePacket [53, 93] = fixedHeader samplePacket @ concat segs @ [OptEnd]
         \<and> list_all2 (\<lambda>k seg. isTLV k (the (Options samplePacket k)) seg) [53, 93] segs"
    by (rule T[THEN conjunct2, THEN conjunct2, THEN mp, OF h])
  from s f l 1 2 show ?thesis by (intro conjI)
qed


text \<open>
  Claim C9 as stated fails: a packet whose only option (400 bytes) overflows the buffer
  is encoded to exactly the bytes of the packet without that option, so nothing
  reports the omission; with two options of which only one fits, which one is
  sent depends on the order in which the map is visited; and an option of 300 bytes,
  which fits, is written with the length byte 44, not as tag, length, value.
\<close>

theorem C9_counterexample:
  "576 \<le> 240 + optionsSize (Options (samplePacket\<lparr>Options := [67 \<mapsto> replicate 400 97]\<rparr>)) [67]
   \<and> serializePacket (samplePacket\<lparr>Options := [67 \<mapsto> replicate 400 97]\<rparr>) [67]
       = serializePacket (samplePacket\<lparr>Options := Map.empty\<rparr>) []
   \<and> serializePacket (samplePacket\<lparr>Options := [1 \<mapsto> replicate 200 1, 3 \<mapsto> replicate 200 3]\<rparr>) [1, 3]
       \<noteq> serializePacket (samplePacket\<lparr>Options := [1 \<mapsto> replicate 200 1, 3 \<mapsto> replicate 200 3]\<rparr>) [3, 1]
   \<and> 240 + optionsSize (Options (samplePacket\<lparr>Options := [67 \<mapsto> replicate 300 97]\<rparr>)) [67] < 576
   \<and> serializePacket (samplePacket\<lparr>Options := [67 \<mapsto> replicate 300 97]\<rparr>) [67]
       = fixedHeader samplePacket @ [67, 44] @ replicate 300 97 @ [OptEnd]
   \<and> \<not> isTLV 67 (replicate 300 97) ([67, 44] @ replicate 300 97)"
proof -
  have a: "576 \<le> 240 + optionsSize (Options (samplePacket\<lparr>Options := [67 \<mapsto> replicate 400 97]\<rparr>)) [67]"
    by (simp add: optionsSize_def)
  have b: "serializePacket (samplePacket\<lparr>Options := [67 \<mapsto> replicate 400 97]\<rparr>) [67]
       = serializePacket (samplePacket\<lparr>Options := Map.empty\<rparr>) []"
    by (simp add: serializePacket_eq fixedHeader_def)
  let ?p = "samplePacket\<lparr>Options := [1 \<mapsto> replicate 200 1, 3 \<mapsto> replicate 200 3]\<rparr>"
  have c1: "serializePacket ?p [1, 3] = fixedHeader ?p @ encodeOption 1 (replicate 200 1) @ [OptEnd]"
    by (simp add: serializePacket_eq)
  have c2: "serializePacket ?p [3, 1] = fixedHeader ?p @ encodeOption 3 (replicate 200 3) @ [OptEnd]"
    by (simp add: serializePacket_eq)
  have c: "serializePacket ?p [1, 3] \<noteq> serializePacket ?p [3, 1]"
    unfolding c1 c2 by (simp add: encodeOption_def)
  let ?q = "samplePacket\<lparr>Options := [67 \<mapsto> replicate 300 97]\<rparr>"
  have d: "240 + optionsSize (Options ?q) [67] < 576" by (simp add: optionsSize_def)
  have n: "(of_nat 300 :: byte) = 44" by (simp add: word_uint_eq_iff)
  have e: "serializePacket ?q [67] = fixedHeader samplePacket @ [67, 44] @ replicate 300 97 @ [OptEnd]"
    using n by (simp add: serializePacket_eq fixedHeader_def encodeOption_def)
  have g: "\<not> isTLV 67 (replicate 300 97) ([67, 44] @ replicate 300 97)"
    by (simp add: isTLV_def)
  from a b c d e g show ?thesis by (intro conjI)
qed



section \<open>Claims about the lease allocator\<close>

text \<open>
  Claim C2 says that once the configured range is used up, a further allocation gives
  an exhaustion signal and never an address outside the range, and that the cursor
  never passes the range end. \<^verbatim>\<open>allocateIP\<close> never reads \<^verbatim>\<open>RangeEnd\<close>: with the range
  10.0.0.100 - 10.0.0.100 the second hardware address gets 10.0.0.101, outside the
  range, and the cursor moves on to 10.0.0.102.
\<close>

theorem C2_range_end_ignored:
  "(case allocateAll
          (NewServer (sampleConfig\<lparr>RangeStart := [0, 0, 0, 0, 0, 0, 0, 0, 0, 0, 255, 255, 10, 0, 0, 100],
                                   RangeEnd := [0, 0, 0, 0, 0, 0, 0, 0, 0, 0, 255, 255, 10, 0, 0, 100]\<rparr>))
          [[0xaa, 0xbb, 0xcc, 0xdd, 0xee, 0x01], [0xaa, 0xbb, 0xcc, 0xdd, 0xee, 0x02]] of
      Inr (ips, s') \<Rightarrow> (ips, nextIP s') | Inl e \<Rightarrow> ([], []))
   = ([[0, 0, 0, 0, 0, 0, 0, 0, 0, 0, 255, 255, 10, 0, 0, 100], [10, 0, 0, 101]], [10, 0, 0, 102])
   \<and> \<not> inRange (sampleConfig\<lparr>RangeStart := [0, 0, 0, 0, 0, 0, 0, 0, 0, 0, 255, 255, 10, 0, 0, 100],
                                   RangeEnd := [0, 0, 0, 0, 0, 0, 0, 0, 0, 0, 255, 255, 10, 0, 0, 100]\<rparr>)
          [10, 0, 0, 101]"
proof -
  let ?start = "[0, 0, 0, 0, 0, 0, 0, 0, 0, 0, 255, 255, 10, 0, 0, 100 :: byte]"
  let ?cfg = "sampleConfig\<lparr>RangeEnd := ?start\<rparr>"
  have c: "sampleConfig\<lparr>RangeStart := ?start, RangeEnd := ?start\<rparr> = ?cfg\<lparr>RangeStart := ?start\<rparr>"
    by simp
  have u: "Uint32 [10, 0, 0, 100] = 167772260" by (simp add: Uint32_def)
  have w1: "PutUint32 167772261 = [10, 0, 0, 101]" by (simp add: PutUint32_def)
  have w2: "PutUint32 167772262 = [10, 0, 0, 102]" by (simp add: PutUint32_def)
  have a: "(case allocateAll (NewServer (?cfg\<lparr>RangeStart := ?start\<rparr>))
          [[0xaa, 0xbb, 0xcc, 0xdd, 0xee, 0x01], [0xaa, 0xbb, 0xcc, 0xdd, 0xee, 0x02]] of
      Inr (ips, s') \<Rightarrow> (ips, nextIP s') | Inl e \<Rightarrow> ([], []))
   = ([?start, [10, 0, 0, 101]], [10, 0, 0, 102])"
    by (subst two_allocations) (simp_all add: To4_mapped u w1 w2)
  have n: "ipNumber [10, 0, 0, 101] = 167772261" by (simp add: ipNumber_def Uint32_def)
  have b: "\<not> inRange (?cfg\<lparr>RangeStart := ?start\<rparr>) [10, 0, 0, 101]"
    by (simp add: inRange_def ipNumber_100 n)
  show ?thesis unfolding c using a b by (intro conjI)
qed







section \<open>Claims about the DHCP responder\<close>



end
